theory Spec2Isabelle
  imports Main "HOL-Library.Word" "HOL-Library.Multiset"
begin

unbundle bit_operations_syntax

section \<open>Library functions used by the program\<close>

text \<open>
  The program is a single Go file, \<^verbatim>\<open>main.go\<close>. Go strings are byte sequences and are
  modelled as \<^typ>\<open>string\<close> (a list of 8-bit characters). The functions of this section are
  the functions of the Go standard library (and of \<^verbatim>\<open>golang.org/x/exp/slices\<close>) that the
  program calls; they are modelled after the library's documented behaviour on a
  Unix system, where the path separator is the slash.
\<close>

subsection \<open>Characters, strconv and fmt\<close>

definition isDigit :: "char \<Rightarrow> bool" where
  "isDigit c = (48 \<le> (of_char c :: nat) \<and> (of_char c :: nat) \<le> 57)"

definition digitVal :: "char \<Rightarrow> nat" where
  "digitVal c = of_char c - 48"

definition decimalValue :: "string \<Rightarrow> nat" where
  "decimalValue s = foldl (\<lambda>n ch. n * 10 + digitVal ch) 0 s"

datatype error =
    NoPageNumber string
  | AtoiSyntax string
  | AtoiRange string
  | CreateTempFailed string
  | ExitError string

datatype panic =
    IndexOutOfRange nat nat
  | WalkFailed string

datatype 'a result = Ok 'a | Err error | Panic panic

text \<open>
  \<^verbatim>\<open>strconv.Atoi\<close>: an optional sign followed by one or more decimal digits; a syntax error
  otherwise, a range error when the value does not fit the 64-bit \<^verbatim>\<open>int\<close>.
\<close>

definition Atoi :: "string \<Rightarrow> error + int" where
  "Atoi s0 =
     (if s0 = [] then Inl (AtoiSyntax s0)
      else
        let s = (if hd s0 = CHR ''-'' \<or> hd s0 = CHR ''+'' then tl s0 else s0) in
        if s = [] \<or> \<not> list_all isDigit s then Inl (AtoiSyntax s0)
        else
          let n = int (decimalValue s);
              v = (if hd s0 = CHR ''-'' then - n else n)
          in if v < - (2 ^ 63) \<or> 2 ^ 63 - 1 < v then Inl (AtoiRange s0) else Inr v)"

text \<open>The verb \<^verbatim>\<open>%d\<close> of \<^verbatim>\<open>fmt.Sprintf\<close>.\<close>

fun natDigits :: "nat \<Rightarrow> string" where
  "natDigits n =
     (if n < 10 then [char_of (48 + n)] else natDigits (n div 10) @ [char_of (48 + n mod 10)])"

declare natDigits.simps [simp del]

definition formatInt :: "int \<Rightarrow> string" where
  "formatInt i = (if i < 0 then CHR ''-'' # natDigits (nat (- i)) else natDigits (nat i))"

subsection \<open>strings.Split, slices.Contains and path/filepath\<close>

fun splitOn :: "char \<Rightarrow> string \<Rightarrow> string list" where
  "splitOn c [] = [[]]"
| "splitOn c (x # xs) =
     (if x = c then [] # splitOn c xs
      else (case splitOn c xs of [] \<Rightarrow> [[x]] | y # ys \<Rightarrow> (x # y) # ys))"

definition Contains :: "'a list \<Rightarrow> 'a \<Rightarrow> bool" where
  "Contains s v = (v \<in> set s)"

definition isPathSeparator :: "char \<Rightarrow> bool" where
  "isPathSeparator c = (c = CHR ''/'')"

text \<open>
  \<^verbatim>\<open>filepath.Ext\<close> scans the path from its end towards the last separator and returns the
  suffix that starts at the first dot it meets; \<open>extScan\<close> is that loop on the reversed path.
\<close>

fun extScan :: "string \<Rightarrow> string \<Rightarrow> string" where
  "extScan [] suffix = []"
| "extScan (c # cs) suffix =
     (if isPathSeparator c then []
      else if c = CHR ''.'' then c # suffix
      else extScan cs (c # suffix))"

definition Ext :: "string \<Rightarrow> string" where
  "Ext path = extScan (rev path) []"

text \<open>\<^verbatim>\<open>filepath.Base\<close>: the last element of the path, trailing separators removed first.\<close>

definition Base :: "string \<Rightarrow> string" where
  "Base path =
     (if path = [] then ''.''
      else
        let stripped = rev (dropWhile isPathSeparator (rev path));
            lastElem = rev (takeWhile (\<lambda>c. \<not> isPathSeparator c) (rev stripped))
        in if lastElem = [] then ''/'' else lastElem)"

text \<open>
  \<^verbatim>\<open>filepath.Clean\<close> and \<^verbatim>\<open>filepath.Join\<close>. Clean drops empty and dot elements, resolves
  each inner dot-dot element against the element before it, drops dot-dot elements at the
  start of a rooted path, and returns a dot for an empty result. Join of two elements
  ignores an empty element and cleans the result.
\<close>

fun cleanElems :: "bool \<Rightarrow> string list \<Rightarrow> string list \<Rightarrow> string list" where
  "cleanElems rooted kept [] = rev kept"
| "cleanElems rooted kept (e # es) =
     (if e = [] \<or> e = ''.'' then cleanElems rooted kept es
      else if e = ''..'' then
        (case kept of
           [] \<Rightarrow> if rooted then cleanElems rooted [] es else cleanElems rooted [e] es
         | k # ks \<Rightarrow> if k = ''..'' then cleanElems rooted (e # kept) es
                     else cleanElems rooted ks es)
      else cleanElems rooted (e # kept) es)"

fun joinElems :: "string list \<Rightarrow> string" where
  "joinElems [] = []"
| "joinElems [e] = e"
| "joinElems (e # es) = e @ ''/'' @ joinElems es"

definition Clean :: "string \<Rightarrow> string" where
  "Clean path =
     (let rooted = (path \<noteq> [] \<and> isPathSeparator (hd path));
          body = joinElems (cleanElems rooted [] (splitOn CHR ''/'' path));
          out = (if rooted then CHR ''/'' # body else body)
      in if out = [] then ''.'' else out)"

definition Join :: "string \<Rightarrow> string \<Rightarrow> string" where
  "Join a b =
     (if a = [] \<and> b = [] then []
      else if a = [] then Clean b
      else if b = [] then Clean a
      else Clean (a @ ''/'' @ b))"

subsection \<open>regexp\<close>

text \<open>
  Go's \<^verbatim>\<open>regexp\<close> returns the leftmost match and, among the matches that start there, the
  one a backtracking engine finds first. \<open>backtrack r t\<close> lists, in the order a backtracking
  engine tries them, the threads that result from matching \<open>r\<close> at the start of the rest of
  the input held by thread \<open>t\<close>; a thread is the rest of the input and the capture groups set
  so far (the latest first). The operators are those the pattern of the program needs:
  any character but newline, a decimal digit, a literal, concatenation, the greedy
  \<^verbatim>\<open>+\<close> and \<^verbatim>\<open>?\<close>, and a capture group. An iteration of \<^verbatim>\<open>+\<close> that consumes nothing is
  not repeated.
\<close>

datatype regex =
    OpAnyCharNotNL
  | OpDigit
  | OpLiteral char
  | OpConcat regex regex
  | OpPlus regex
  | OpQuest regex
  | OpCapture nat regex

type_synonym thread = "string \<times> (nat \<times> string) list"

fun step1 :: "(char \<Rightarrow> bool) \<Rightarrow> thread \<Rightarrow> thread list" where
  "step1 P ([], c) = []"
| "step1 P (x # xs, c) = (if P x then [(xs, c)] else [])"

function backtrack :: "regex \<Rightarrow> thread \<Rightarrow> thread list" where
  "backtrack OpAnyCharNotNL t = step1 (\<lambda>x. x \<noteq> CHR 0x0A) t"
| "backtrack OpDigit t = step1 isDigit t"
| "backtrack (OpLiteral l) t = step1 (\<lambda>x. x = l) t"
| "backtrack (OpConcat r1 r2) t = concat (map (backtrack r2) (backtrack r1 t))"
| "backtrack (OpQuest r) t = backtrack r t @ [t]"
| "backtrack (OpPlus r) t =
     concat (map (\<lambda>t'. backtrack (OpPlus r) t' @ [t'])
       (filter (\<lambda>t'. length (fst t') < length (fst t)) (backtrack r t)))"
| "backtrack (OpCapture n r) t =
     map (\<lambda>t'. (fst t', (n, take (length (fst t) - length (fst t')) (fst t)) # snd t'))
       (backtrack r t)"
  by pat_completeness auto
termination
  by (relation "measures [\<lambda>(r, t). size r, \<lambda>(r, t). length (fst t)]") auto

declare backtrack.simps [simp del]

fun numSubexp :: "regex \<Rightarrow> nat" where
  "numSubexp (OpConcat r1 r2) = max (numSubexp r1) (numSubexp r2)"
| "numSubexp (OpPlus r) = numSubexp r"
| "numSubexp (OpQuest r) = numSubexp r"
| "numSubexp (OpCapture n r) = max n (numSubexp r)"
| "numSubexp r = 0"

text \<open>The leftmost match: the first start position at which the expression matches.\<close>

fun leftmost :: "regex \<Rightarrow> string \<Rightarrow> (string \<times> thread) option" where
  "leftmost r [] = (case backtrack r ([], []) of [] \<Rightarrow> None | t # _ \<Rightarrow> Some ([], t))"
| "leftmost r (x # xs) =
     (case backtrack r (x # xs, []) of
        [] \<Rightarrow> leftmost r xs
      | t # _ \<Rightarrow> Some (x # xs, t))"

text \<open>
  \<^verbatim>\<open>FindStringSubmatch\<close>: the text of the leftmost match followed by the text of each
  capture group (empty for a group that took no part in the match); the nil slice, here
  the empty list, when there is no match.
\<close>

definition FindStringSubmatch :: "regex \<Rightarrow> string \<Rightarrow> string list" where
  "FindStringSubmatch r s =
     (case leftmost r s of
        None \<Rightarrow> []
      | Some (from, (rest, caps)) \<Rightarrow>
          take (length from - length rest) from #
          map (\<lambda>n. case map_of caps n of None \<Rightarrow> [] | Some g \<Rightarrow> g) [1..<Suc (numSubexp r)])"

subsection \<open>slices.SortFunc\<close>

text \<open>
  \<^verbatim>\<open>slices.SortFunc\<close> of \<^verbatim>\<open>golang.org/x/exp/slices\<close> is a pattern-defeating quicksort
  (\<^verbatim>\<open>pdqsortCmpFunc\<close> and its helpers in \<^verbatim>\<open>zsortanyfunc.go\<close>); the library documents that
  the sort is not guaranteed to be stable. The slice is a list that every step updates by
  swapping two elements, indices are natural numbers, and \<open>lt x y\<close> stands for
  \<^verbatim>\<open>cmp(x, y) < 0\<close>, the only way in which the library uses the comparison function.
  Where the library counts an index \<open>j\<close> down with an inclusive bound, the model holds
  \<open>jj = j + 1\<close>, so that the index stays a natural number when the loop ends.
\<close>

definition swap :: "'a list \<Rightarrow> nat \<Rightarrow> nat \<Rightarrow> 'a list" where
  "swap data i j = data[i := data ! j, j := data ! i]"

function insertionInner :: "('a \<Rightarrow> 'a \<Rightarrow> bool) \<Rightarrow> 'a list \<Rightarrow> nat \<Rightarrow> nat \<Rightarrow> 'a list" where
  "insertionInner lt data a j =
     (if a < j \<and> lt (data ! j) (data ! (j - 1))
      then insertionInner lt (swap data j (j - 1)) a (j - 1)
      else data)"
  by pat_completeness auto
termination
  by (relation "measure (\<lambda>(lt, data, a, j). j)") auto

declare insertionInner.simps [simp del]

function insertionOuter :: "('a \<Rightarrow> 'a \<Rightarrow> bool) \<Rightarrow> 'a list \<Rightarrow> nat \<Rightarrow> nat \<Rightarrow> nat \<Rightarrow> 'a list" where
  "insertionOuter lt data a i b =
     (if i < b then insertionOuter lt (insertionInner lt data a i) a (Suc i) b else data)"
  by pat_completeness auto
termination
  by (relation "measure (\<lambda>(lt, data, a, i, b). b - i)") auto

declare insertionOuter.simps [simp del]

definition insertionSortCmpFunc :: "('a \<Rightarrow> 'a \<Rightarrow> bool) \<Rightarrow> 'a list \<Rightarrow> nat \<Rightarrow> nat \<Rightarrow> 'a list" where
  "insertionSortCmpFunc lt data a b = insertionOuter lt data a (a + 1) b"

function siftDownCmpFunc :: "('a \<Rightarrow> 'a \<Rightarrow> bool) \<Rightarrow> 'a list \<Rightarrow> nat \<Rightarrow> nat \<Rightarrow> nat \<Rightarrow> 'a list" where
  "siftDownCmpFunc lt data root hi first =
     (let child = 2 * root + 1 in
      if hi \<le> child then data
      else
        let child' = (if child + 1 < hi \<and> lt (data ! (first + child)) (data ! (first + child + 1))
                      then child + 1 else child)
        in if \<not> lt (data ! (first + root)) (data ! (first + child')) then data
           else siftDownCmpFunc lt (swap data (first + root) (first + child')) child' hi first)"
  by pat_completeness auto
termination
proof (relation "measure (\<lambda>(lt, data, root, hi, first). hi - root)", goal_cases)
  case 1
  then show ?case by simp
next
  case (2 lt data root hi first child child')
  have "root < child'" "child' < hi"
    using 2(1,2) unfolding 2(3) by (simp_all split: if_splits)
  then show ?case by simp
qed

declare siftDownCmpFunc.simps [simp del]

fun heapBuild :: "('a \<Rightarrow> 'a \<Rightarrow> bool) \<Rightarrow> 'a list \<Rightarrow> nat \<Rightarrow> nat \<Rightarrow> nat \<Rightarrow> 'a list" where
  "heapBuild lt data 0 hi first = siftDownCmpFunc lt data 0 hi first"
| "heapBuild lt data (Suc i) hi first =
     heapBuild lt (siftDownCmpFunc lt data (Suc i) hi first) i hi first"

fun heapPop :: "('a \<Rightarrow> 'a \<Rightarrow> bool) \<Rightarrow> 'a list \<Rightarrow> nat \<Rightarrow> nat \<Rightarrow> 'a list" where
  "heapPop lt data 0 first = siftDownCmpFunc lt (swap data first (first + 0)) 0 0 first"
| "heapPop lt data (Suc i) first =
     heapPop lt (siftDownCmpFunc lt (swap data first (first + Suc i)) 0 (Suc i) first) i first"

definition heapSortCmpFunc :: "('a \<Rightarrow> 'a \<Rightarrow> bool) \<Rightarrow> 'a list \<Rightarrow> nat \<Rightarrow> nat \<Rightarrow> 'a list" where
  "heapSortCmpFunc lt data a b =
     (let first = a; hi = b - a;
          data1 = heapBuild lt data ((hi - 1) div 2) hi first
      in if hi = 0 then data1 else heapPop lt data1 (hi - 1) first)"

function scanUp :: "('a \<Rightarrow> bool) \<Rightarrow> 'a list \<Rightarrow> nat \<Rightarrow> nat \<Rightarrow> nat" where
  "scanUp P data i jj = (if i < jj \<and> P (data ! i) then scanUp P data (Suc i) jj else i)"
  by pat_completeness auto
termination
  by (relation "measure (\<lambda>(P, data, i, jj). jj - i)") auto

declare scanUp.simps [simp del]

function scanDown :: "('a \<Rightarrow> bool) \<Rightarrow> 'a list \<Rightarrow> nat \<Rightarrow> nat \<Rightarrow> nat" where
  "scanDown P data i jj = (if i < jj \<and> P (data ! (jj - 1)) then scanDown P data i (jj - 1) else jj)"
  by pat_completeness auto
termination
  by (relation "measure (\<lambda>(P, data, i, jj). jj)") auto

declare scanDown.simps [simp del]

lemma scanUp_ge: "i \<le> scanUp P data i jj"
  by (induction P data i jj rule: scanUp.induct) (subst scanUp.simps, auto)

lemma scanUp_le: "i \<le> jj \<Longrightarrow> scanUp P data i jj \<le> jj"
  by (induction P data i jj rule: scanUp.induct) (subst scanUp.simps, auto)

lemma scanDown_le: "scanDown P data i jj \<le> jj"
  by (induction P data i jj rule: scanDown.induct) (subst scanDown.simps, auto)

lemma scanDown_ge: "i \<le> jj \<Longrightarrow> i \<le> scanDown P data i jj"
  by (induction P data i jj rule: scanDown.induct) (subst scanDown.simps, auto)

function partitionLoop :: "('a \<Rightarrow> 'a \<Rightarrow> bool) \<Rightarrow> 'a list \<Rightarrow> nat \<Rightarrow> nat \<Rightarrow> nat \<Rightarrow> 'a list \<times> nat" where
  "partitionLoop lt data a i jj =
     (let i' = scanUp (\<lambda>x. lt x (data ! a)) data i jj;
          jj' = scanDown (\<lambda>x. \<not> lt x (data ! a)) data i' jj
      in if jj' \<le> i' then (swap data (jj' - 1) a, jj' - 1)
         else partitionLoop lt (swap data i' (jj' - 1)) a (i' + 1) (jj' - 1))"
  by pat_completeness auto
termination
proof (relation "measure (\<lambda>(lt, data, a, i, jj). jj - i)", goal_cases)
  case 1
  then show ?case by simp
next
  case (2 lt data a i jj i' jj')
  have "i \<le> i'" using 2(1) by (simp add: scanUp_ge)
  moreover have "jj' \<le> jj" using 2(2) by (simp add: scanDown_le)
  ultimately show ?case using 2(3) by simp
qed

declare partitionLoop.simps [simp del]

definition partitionCmpFunc ::
  "('a \<Rightarrow> 'a \<Rightarrow> bool) \<Rightarrow> 'a list \<Rightarrow> nat \<Rightarrow> nat \<Rightarrow> nat \<Rightarrow> 'a list \<times> nat \<times> bool" where
  "partitionCmpFunc lt data0 a b pivot =
     (let data = swap data0 a pivot;
          i = scanUp (\<lambda>x. lt x (data ! a)) data (a + 1) b;
          jj = scanDown (\<lambda>x. \<not> lt x (data ! a)) data i b
      in if jj \<le> i then (swap data (jj - 1) a, jj - 1, True)
         else (case partitionLoop lt (swap data i (jj - 1)) a (i + 1) (jj - 1) of
                 (data', mid) \<Rightarrow> (data', mid, False)))"

function partitionEqualLoop :: "('a \<Rightarrow> 'a \<Rightarrow> bool) \<Rightarrow> 'a list \<Rightarrow> nat \<Rightarrow> nat \<Rightarrow> nat \<Rightarrow> 'a list \<times> nat" where
  "partitionEqualLoop lt data a i jj =
     (let i' = scanUp (\<lambda>x. \<not> lt (data ! a) x) data i jj;
          jj' = scanDown (\<lambda>x. lt (data ! a) x) data i' jj
      in if jj' \<le> i' then (data, i')
         else partitionEqualLoop lt (swap data i' (jj' - 1)) a (i' + 1) (jj' - 1))"
  by pat_completeness auto
termination
proof (relation "measure (\<lambda>(lt, data, a, i, jj). jj - i)", goal_cases)
  case 1
  then show ?case by simp
next
  case (2 lt data a i jj i' jj')
  have "i \<le> i'" using 2(1) by (simp add: scanUp_ge)
  moreover have "jj' \<le> jj" using 2(2) by (simp add: scanDown_le)
  ultimately show ?case using 2(3) by simp
qed

declare partitionEqualLoop.simps [simp del]

definition partitionEqualCmpFunc ::
  "('a \<Rightarrow> 'a \<Rightarrow> bool) \<Rightarrow> 'a list \<Rightarrow> nat \<Rightarrow> nat \<Rightarrow> nat \<Rightarrow> 'a list \<times> nat" where
  "partitionEqualCmpFunc lt data a b pivot =
     partitionEqualLoop lt (swap data a pivot) a (a + 1) b"


function scanSorted :: "('a \<Rightarrow> 'a \<Rightarrow> bool) \<Rightarrow> 'a list \<Rightarrow> nat \<Rightarrow> nat \<Rightarrow> nat" where
  "scanSorted lt data i b =
     (if i < b \<and> \<not> lt (data ! i) (data ! (i - 1)) then scanSorted lt data (Suc i) b else i)"
  by pat_completeness auto
termination
  by (relation "measure (\<lambda>(lt, data, i, b). b - i)") auto

declare scanSorted.simps [simp del]

function shiftLeft :: "('a \<Rightarrow> 'a \<Rightarrow> bool) \<Rightarrow> 'a list \<Rightarrow> nat \<Rightarrow> 'a list" where
  "shiftLeft lt data j =
     (if 1 \<le> j then
        (if \<not> lt (data ! j) (data ! (j - 1)) then data
         else shiftLeft lt (swap data j (j - 1)) (j - 1))
      else data)"
  by pat_completeness auto
termination
  by (relation "measure (\<lambda>(lt, data, j). j)") auto

declare shiftLeft.simps [simp del]

function shiftRight :: "('a \<Rightarrow> 'a \<Rightarrow> bool) \<Rightarrow> 'a list \<Rightarrow> nat \<Rightarrow> nat \<Rightarrow> 'a list" where
  "shiftRight lt data j b =
     (if j < b then
        (if \<not> lt (data ! j) (data ! (j - 1)) then data
         else shiftRight lt (swap data j (j - 1)) (Suc j) b)
      else data)"
  by pat_completeness auto
termination
  by (relation "measure (\<lambda>(lt, data, j, b). b - j)") auto

declare shiftRight.simps [simp del]

fun partialInsertionLoop ::
  "('a \<Rightarrow> 'a \<Rightarrow> bool) \<Rightarrow> 'a list \<Rightarrow> nat \<Rightarrow> nat \<Rightarrow> nat \<Rightarrow> nat \<Rightarrow> 'a list \<times> bool" where
  "partialInsertionLoop lt data a b i 0 = (data, False)"
| "partialInsertionLoop lt data a b i (Suc steps) =
     (let i' = scanSorted lt data i b in
      if i' = b then (data, True)
      else if b - a < 50 then (data, False)
      else
        let data1 = swap data i' (i' - 1);
            data2 = (if 2 \<le> i' - a then shiftLeft lt data1 (i' - 1) else data1);
            data3 = (if 2 \<le> b - i' then shiftRight lt data2 (i' + 1) b else data2)
        in partialInsertionLoop lt data3 a b i' steps)"

definition partialInsertionSortCmpFunc ::
  "('a \<Rightarrow> 'a \<Rightarrow> bool) \<Rightarrow> 'a list \<Rightarrow> nat \<Rightarrow> nat \<Rightarrow> 'a list \<times> bool" where
  "partialInsertionSortCmpFunc lt data a b = partialInsertionLoop lt data a b (a + 1) 5"

fun bitsLen :: "nat \<Rightarrow> nat" where
  "bitsLen n = (if n = 0 then 0 else Suc (bitsLen (n div 2)))"

declare bitsLen.simps [simp del]

definition xorshiftNext :: "64 word \<Rightarrow> 64 word" where
  "xorshiftNext r0 =
     (let r1 = r0 XOR push_bit 13 r0;
          r2 = r1 XOR drop_bit 17 r1;
          r3 = r2 XOR push_bit 5 r2
      in r3)"

definition nextPowerOfTwo :: "nat \<Rightarrow> 64 word" where
  "nextPowerOfTwo n = push_bit (bitsLen n) 1"

fun breakPatternsLoop :: "'a list \<Rightarrow> nat \<Rightarrow> nat \<Rightarrow> nat \<Rightarrow> 64 word \<Rightarrow> 64 word \<Rightarrow> nat \<Rightarrow> nat \<Rightarrow> 'a list" where
  "breakPatternsLoop data a len idx modulus random i 0 = data"
| "breakPatternsLoop data a len idx modulus random i (Suc k) =
     (let random' = xorshiftNext random;
          other0 = unat (random' AND (modulus - 1));
          other = (if len \<le> other0 then other0 - len else other0)
      in breakPatternsLoop (swap data (idx - 1 + i) (a + other)) a len idx modulus random' (Suc i) k)"

definition breakPatternsCmpFunc :: "'a list \<Rightarrow> nat \<Rightarrow> nat \<Rightarrow> 'a list" where
  "breakPatternsCmpFunc data a b =
     (let len = b - a in
      if 8 \<le> len then
        breakPatternsLoop data a len (a + (len div 4) * 2 - 1) (nextPowerOfTwo len) (word_of_nat len) 0 3
      else data)"

datatype sortedHint = unknownHint | increasingHint | decreasingHint

definition order2CmpFunc ::
  "('a \<Rightarrow> 'a \<Rightarrow> bool) \<Rightarrow> 'a list \<Rightarrow> nat \<Rightarrow> nat \<Rightarrow> nat \<Rightarrow> nat \<times> nat \<times> nat" where
  "order2CmpFunc lt data a b swaps =
     (if lt (data ! b) (data ! a) then (b, a, swaps + 1) else (a, b, swaps))"

definition medianCmpFunc ::
  "('a \<Rightarrow> 'a \<Rightarrow> bool) \<Rightarrow> 'a list \<Rightarrow> nat \<Rightarrow> nat \<Rightarrow> nat \<Rightarrow> nat \<Rightarrow> nat \<times> nat" where
  "medianCmpFunc lt data a0 b0 c0 swaps0 =
     (case order2CmpFunc lt data a0 b0 swaps0 of (a1, b1, swaps1) \<Rightarrow>
      case order2CmpFunc lt data b1 c0 swaps1 of (b2, c2, swaps2) \<Rightarrow>
      case order2CmpFunc lt data a1 b2 swaps2 of (a3, b3, swaps3) \<Rightarrow>
        (b3, swaps3))"

definition medianAdjacentCmpFunc ::
  "('a \<Rightarrow> 'a \<Rightarrow> bool) \<Rightarrow> 'a list \<Rightarrow> nat \<Rightarrow> nat \<Rightarrow> nat \<times> nat" where
  "medianAdjacentCmpFunc lt data a swaps = medianCmpFunc lt data (a - 1) a (a + 1) swaps"

definition choosePivotCmpFunc ::
  "('a \<Rightarrow> 'a \<Rightarrow> bool) \<Rightarrow> 'a list \<Rightarrow> nat \<Rightarrow> nat \<Rightarrow> nat \<times> sortedHint" where
  "choosePivotCmpFunc lt data a b =
     (let l = b - a;
          i0 = a + l div 4 * 1;
          j0 = a + l div 4 * 2;
          k0 = a + l div 4 * 3;
          (j, swaps) =
            (if 8 \<le> l then
               (if 50 \<le> l then
                  (case medianAdjacentCmpFunc lt data i0 0 of (i1, s1) \<Rightarrow>
                   case medianAdjacentCmpFunc lt data j0 s1 of (j1, s2) \<Rightarrow>
                   case medianAdjacentCmpFunc lt data k0 s2 of (k1, s3) \<Rightarrow>
                     medianCmpFunc lt data i1 j1 k1 s3)
                else medianCmpFunc lt data i0 j0 k0 0)
             else (j0, 0))
      in if swaps = 0 then (j, increasingHint)
         else if swaps = 12 then (j, decreasingHint)
         else (j, unknownHint))"

function reverseRangeLoop :: "'a list \<Rightarrow> nat \<Rightarrow> nat \<Rightarrow> 'a list" where
  "reverseRangeLoop data i jj =
     (if i + 1 < jj then reverseRangeLoop (swap data i (jj - 1)) (i + 1) (jj - 1) else data)"
  by pat_completeness auto
termination
  by (relation "measure (\<lambda>(data, i, jj). jj - i)") auto

declare reverseRangeLoop.simps [simp del]

definition reverseRangeCmpFunc :: "'a list \<Rightarrow> nat \<Rightarrow> nat \<Rightarrow> 'a list" where
  "reverseRangeCmpFunc data a b = reverseRangeLoop data a b"


lemma scanUp_max: "scanUp P data i jj \<le> max i jj"
  by (induction P data i jj rule: scanUp.induct) (subst scanUp.simps, auto)

lemma scanDown_min: "min i jj \<le> scanDown P data i jj"
  by (induction P data i jj rule: scanDown.induct) (subst scanDown.simps, auto)

lemma partitionLoop_mid:
  "a < i \<Longrightarrow> a < jj \<Longrightarrow> i \<le> Suc jj \<Longrightarrow> partitionLoop lt data a i jj = (data', mid)
   \<Longrightarrow> a \<le> mid \<and> mid < jj"
proof (induction lt data a i jj arbitrary: data' mid rule: partitionLoop.induct)
  case (1 lt data a i jj)
  define i' where "i' = scanUp (\<lambda>x. lt x (data ! a)) data i jj"
  define jj' where "jj' = scanDown (\<lambda>x. \<not> lt x (data ! a)) data i' jj"
  have b1: "i \<le> i'" "i' \<le> max i jj" by (simp_all add: i'_def scanUp_ge scanUp_max)
  have b2: "min i' jj \<le> jj'" "jj' \<le> jj" by (simp_all add: jj'_def scanDown_min scanDown_le)
  show ?case
  proof (cases "jj' \<le> i'")
    case True
    then have "mid = jj' - 1"
      using 1(5) by (subst (asm) partitionLoop.simps) (simp add: Let_def i'_def [symmetric] jj'_def [symmetric])
    then show ?thesis using b1 b2 1(2,3,4) True by auto
  next
    case False
    then have eq: "partitionLoop lt (swap data i' (jj' - 1)) a (i' + 1) (jj' - 1) = (data', mid)"
      using 1(5) by (subst (asm) partitionLoop.simps) (simp add: Let_def i'_def [symmetric] jj'_def [symmetric])
    have "a \<le> mid \<and> mid < jj' - 1"
      by (rule 1(1) [OF i'_def jj'_def False _ _ _ eq]) (use b1 b2 1(2) False in auto)
    then show ?thesis using b2 by linarith
  qed
qed

lemma partitionCmpFunc_mid:
  assumes "a < b" "partitionCmpFunc lt data a b pivot = (data', mid, ap)"
  shows "a \<le> mid \<and> mid < b"
proof -
  define d where "d = swap data a pivot"
  define i where "i = scanUp (\<lambda>x. lt x (d ! a)) d (a + 1) b"
  define jj where "jj = scanDown (\<lambda>x. \<not> lt x (d ! a)) d i b"
  have b1: "a + 1 \<le> i" "i \<le> b" using assms(1) by (simp_all add: i_def scanUp_ge scanUp_le)
  have b2: "i \<le> jj" "jj \<le> b" using b1 by (simp_all add: jj_def scanDown_ge scanDown_le)
  have unf: "partitionCmpFunc lt data a b pivot =
     (if jj \<le> i then (swap d (jj - 1) a, jj - 1, True)
      else (case partitionLoop lt (swap d i (jj - 1)) a (i + 1) (jj - 1) of
              (data', mid) \<Rightarrow> (data', mid, False)))"
    by (simp add: partitionCmpFunc_def Let_def d_def i_def jj_def)
  show ?thesis
  proof (cases "jj \<le> i")
    case True
    then have "mid = jj - 1"
      using assms(2) unfolding unf by simp
    then show ?thesis using b1 b2 True by auto
  next
    case False
    then obtain dd where eq: "partitionLoop lt (swap d i (jj - 1)) a (i + 1) (jj - 1) = (dd, mid)"
      using assms(2) unfolding unf by (simp split: prod.splits)
    have "a \<le> mid \<and> mid < jj - 1"
      by (rule partitionLoop_mid [OF _ _ _ eq]) (use b1 b2 False in auto)
    then show ?thesis using b2 by linarith
  qed
qed

lemma partitionEqualLoop_mid:
  "partitionEqualLoop lt data a i jj = (data', mid) \<Longrightarrow> i \<le> mid \<and> mid \<le> max i jj"
proof (induction lt data a i jj arbitrary: data' mid rule: partitionEqualLoop.induct)
  case (1 lt data a i jj)
  define i' where "i' = scanUp (\<lambda>x. \<not> lt (data ! a) x) data i jj"
  define jj' where "jj' = scanDown (\<lambda>x. lt (data ! a) x) data i' jj"
  have b1: "i \<le> i'" "i' \<le> max i jj" by (simp_all add: i'_def scanUp_ge scanUp_max)
  have b2: "min i' jj \<le> jj'" "jj' \<le> jj" by (simp_all add: jj'_def scanDown_min scanDown_le)
  show ?case
  proof (cases "jj' \<le> i'")
    case True
    then have "mid = i'"
      using 1(2) by (subst (asm) partitionEqualLoop.simps) (simp add: Let_def i'_def [symmetric] jj'_def [symmetric])
    then show ?thesis using b1 by simp
  next
    case False
    then have eq: "partitionEqualLoop lt (swap data i' (jj' - 1)) a (i' + 1) (jj' - 1) = (data', mid)"
      using 1(2) by (subst (asm) partitionEqualLoop.simps) (simp add: Let_def i'_def [symmetric] jj'_def [symmetric])
    have "i' + 1 \<le> mid \<and> mid \<le> max (i' + 1) (jj' - 1)"
      by (rule 1(1) [OF i'_def jj'_def False eq])
    then show ?thesis using b1 b2 False by auto
  qed
qed

lemma partitionEqualCmpFunc_mid:
  "a < b \<Longrightarrow> partitionEqualCmpFunc lt data a b pivot = (data', mid) \<Longrightarrow> a < mid \<and> mid \<le> b"
  using partitionEqualLoop_mid [of lt "swap data a pivot" a "a + 1" b data' mid]
  by (auto simp add: partitionEqualCmpFunc_def)

function pdqsortCmpFunc ::
  "('a \<Rightarrow> 'a \<Rightarrow> bool) \<Rightarrow> 'a list \<Rightarrow> nat \<Rightarrow> nat \<Rightarrow> nat \<Rightarrow> bool \<Rightarrow> bool \<Rightarrow> 'a list" where
  "pdqsortCmpFunc lt data a b limit wasBalanced wasPartitioned =
     (if b - a \<le> 12 then insertionSortCmpFunc lt data a b
      else if limit = 0 then heapSortCmpFunc lt data a b
      else
        (case (if \<not> wasBalanced then (breakPatternsCmpFunc data a b, limit - 1) else (data, limit)) of
           (data1, limit1) \<Rightarrow>
        (case choosePivotCmpFunc lt data1 a b of (pivot0, hint0) \<Rightarrow>
        (case (if hint0 = decreasingHint
               then (reverseRangeCmpFunc data1 a b, (b - 1) - (pivot0 - a), increasingHint)
               else (data1, pivot0, hint0)) of
           (data2, pivot, hint) \<Rightarrow>
        (case (if wasBalanced \<and> wasPartitioned \<and> hint = increasingHint
               then partialInsertionSortCmpFunc lt data2 a b else (data2, False)) of
           (data3, isSorted) \<Rightarrow>
        if isSorted then data3
        else if 0 < a \<and> \<not> lt (data3 ! (a - 1)) (data3 ! pivot) then
          (case partitionEqualCmpFunc lt data3 a b pivot of
             (data4, mid) \<Rightarrow> pdqsortCmpFunc lt data4 mid b limit1 wasBalanced wasPartitioned)
        else
          (case partitionCmpFunc lt data3 a b pivot of
             (data4, mid, alreadyPartitioned) \<Rightarrow>
               if mid - a < b - mid then
                 pdqsortCmpFunc lt (pdqsortCmpFunc lt data4 a mid limit1 True True)
                   (mid + 1) b limit1 ((b - a) div 8 \<le> mid - a) alreadyPartitioned
               else
                 pdqsortCmpFunc lt (pdqsortCmpFunc lt data4 (mid + 1) b limit1 True True)
                   a mid limit1 ((b - a) div 8 \<le> b - mid) alreadyPartitioned))))))"
  by pat_completeness auto
termination
  apply (relation "measure (\<lambda>(lt, data, a, b, limit, wb, wp). b - a)")
  apply simp
  subgoal premises p for lt data a b limit wb wp x y xa ya xb yb xc yaa xd yab xe yac
  proof -
    have "a < b" using p(1) by simp
    from partitionEqualCmpFunc_mid [OF this p(10) [symmetric]] show ?thesis by auto
  qed
  subgoal premises p for lt data a b limit wb wp x y xa ya xb yb xc yaa xd yab xe yac xf yad
  proof -
    have "a < b" using p(1) by simp
    moreover have "partitionCmpFunc lt xd a b xc = (xe, xf, yad)" using p(10,11) by simp
    ultimately have "a \<le> xf \<and> xf < b" by (rule partitionCmpFunc_mid)
    then show ?thesis by auto
  qed
  subgoal premises p for lt data a b limit wb wp x y xa ya xb yb xc yaa xd yab xe yac xf yad
  proof -
    have "a < b" using p(1) by simp
    moreover have "partitionCmpFunc lt xd a b xc = (xe, xf, yad)" using p(10,11) by simp
    ultimately have "a \<le> xf \<and> xf < b" by (rule partitionCmpFunc_mid)
    then show ?thesis by auto
  qed
  subgoal premises p for lt data a b limit wb wp x y xa ya xb yb xc yaa xd yab xe yac xf yad
  proof -
    have "a < b" using p(1) by simp
    moreover have "partitionCmpFunc lt xd a b xc = (xe, xf, yad)" using p(10,11) by simp
    ultimately have "a \<le> xf \<and> xf < b" by (rule partitionCmpFunc_mid)
    then show ?thesis by auto
  qed
  subgoal premises p for lt data a b limit wb wp x y xa ya xb yb xc yaa xd yab xe yac xf yad
  proof -
    have "a < b" using p(1) by simp
    moreover have "partitionCmpFunc lt xd a b xc = (xe, xf, yad)" using p(10,11) by simp
    ultimately have "a \<le> xf \<and> xf < b" by (rule partitionCmpFunc_mid)
    then show ?thesis by auto
  qed
  done

declare pdqsortCmpFunc.simps [simp del]

definition SortFunc :: "'a list \<Rightarrow> ('a \<Rightarrow> 'a \<Rightarrow> int) \<Rightarrow> 'a list" where
  "SortFunc x cmp = pdqsortCmpFunc (\<lambda>a b. cmp a b < 0) x 0 (length x) (bitsLen (length x)) True True"


section \<open>The program\<close>

subsection \<open>Configuration, pages and the outside world\<close>

text \<open>
  The global variables that \<^verbatim>\<open>parseArgs\<close> sets from the command line; no function of the
  program writes them afterwards, so they are passed along as a record.
\<close>

record config =
  directorySearchPath :: string
  fileExtensions :: string
  watermarkFilePath :: string
  watermarkImageScale :: int
  outputDimensionHeight :: int
  outputDimensionWidth :: int
  outputFilePath :: string
  workDirectory :: string

record page =
  filepath :: string
  number :: int
  tmpPath :: string

text \<open>
  What the program does to its surroundings: the lines it prints, the external commands
  it runs (name and arguments, oldest first) and the temporary files that exist. What the
  surroundings answer is not decided by the program: \<open>osCreateTemp\<close> is the answer of
  \<^verbatim>\<open>os.CreateTemp\<close> to the call made for the page with the given source path, for the
  given directory and pattern (the name of the file it created, or the message of its
  error), and \<open>runCommand\<close> gives the combined output of an external command and the
  message of its error when it fails.
\<close>

record world =
  stdout :: "string list"
  executed :: "(string \<times> string list) list"
  tempFiles :: "string list"

record env =
  osCreateTemp :: "string \<Rightarrow> string \<Rightarrow> string \<Rightarrow> string + string"
  runCommand :: "string \<Rightarrow> string list \<Rightarrow> string \<times> string option"

definition println :: "string \<Rightarrow> world \<Rightarrow> world" where
  "println line w = w\<lparr>stdout := stdout w @ [line]\<rparr>"

definition CombinedOutput :: "env \<Rightarrow> string \<Rightarrow> string list \<Rightarrow> world \<Rightarrow> string \<times> error option \<times> world" where
  "CombinedOutput e name args w =
     (case runCommand e name args of
        (b, failure) \<Rightarrow>
          (b, map_option ExitError failure, w\<lparr>executed := executed w @ [(name, args)]\<rparr>))"

definition osRemove :: "string \<Rightarrow> world \<Rightarrow> world" where
  "osRemove name w = w\<lparr>tempFiles := removeAll name (tempFiles w)\<rparr>"

text \<open>
  The directory tree under the search path, as \<^verbatim>\<open>filepath.WalkDir\<close> meets it: a file (any
  entry that is not a directory), a directory with its entries in the order in which
  \<^verbatim>\<open>ReadDir\<close> lists them, or a directory that cannot be read. The name of the root node is
  not used: its path is the search path itself. \<open>LstatError\<close> is a search path that
  cannot be inspected at all.
\<close>

datatype fsnode =
    File string
  | Dir string "fsnode list"
  | UnreadableDir string string

datatype fsroot = LstatError string | Root fsnode

fun nodeName :: "fsnode \<Rightarrow> string" where
  "nodeName (File n) = n"
| "nodeName (Dir n entries) = n"
| "nodeName (UnreadableDir n e) = n"

subsection \<open>walkDirectorySearchPath\<close>

text \<open>
  The function literal passed to \<^verbatim>\<open>filepath.WalkDir\<close>. It returns the error it was given,
  skips directories, prints and skips a file whose extension is not listed, and sends
  every other path to the channel; the paths sent so far are the first component of the
  state.
\<close>

type_synonym walkState = "string list \<times> world"

definition walkFn :: "string list \<Rightarrow> string \<Rightarrow> bool \<Rightarrow> string option \<Rightarrow> walkState \<Rightarrow> string option \<times> walkState" where
  "walkFn exts path isDir err st =
     (case err of
        Some e \<Rightarrow> (Some e, st)
      | None \<Rightarrow>
          if isDir then (None, st)
          else if \<not> Contains exts (Ext path) then
            (None, (fst st, println (''skipping: '' @ path) (snd st)))
          else (None, (fst st @ [path], snd st)))"

text \<open>
  \<^verbatim>\<open>filepath.WalkDir\<close>: the function is called for the entry itself, then, for a directory,
  for every entry of its listing in order; a directory that cannot be read is reported to
  the function by a second call. The first error returned by the function ends the walk.
  (The function of this program never returns \<^verbatim>\<open>SkipDir\<close>.)
\<close>

fun walkDir :: "string list \<Rightarrow> string \<Rightarrow> fsnode \<Rightarrow> walkState \<Rightarrow> string option \<times> walkState"
  and walkEntries :: "string list \<Rightarrow> string \<Rightarrow> fsnode list \<Rightarrow> walkState \<Rightarrow> string option \<times> walkState" where
  "walkDir exts path (File n) st = walkFn exts path False None st"
| "walkDir exts path (UnreadableDir n e) st =
     (case walkFn exts path True None st of
        (Some e1, st1) \<Rightarrow> (Some e1, st1)
      | (None, st1) \<Rightarrow> walkFn exts path True (Some e) st1)"
| "walkDir exts path (Dir n entries) st =
     (case walkFn exts path True None st of
        (Some e1, st1) \<Rightarrow> (Some e1, st1)
      | (None, st1) \<Rightarrow> walkEntries exts path entries st1)"
| "walkEntries exts path [] st = (None, st)"
| "walkEntries exts path (d1 # ds) st =
     (case walkDir exts (Join path (nodeName d1)) d1 st of
        (Some e1, st1) \<Rightarrow> (Some e1, st1)
      | (None, st1) \<Rightarrow> walkEntries exts path ds st1)"

definition WalkDir :: "string list \<Rightarrow> string \<Rightarrow> fsroot \<Rightarrow> walkState \<Rightarrow> string option \<times> walkState" where
  "WalkDir exts root fs st =
     (case fs of
        LstatError e \<Rightarrow> walkFn exts root False (Some e) st
      | Root d \<Rightarrow> walkDir exts root d st)"

text \<open>
  \<open>walkDirectorySearchPath\<close> returns the paths sent to the channel, the error of the walk
  if there was one (the program then panics), and the world.
\<close>

definition walkDirectorySearchPath :: "config \<Rightarrow> fsroot \<Rightarrow> world \<Rightarrow> string list \<times> string option \<times> world" where
  "walkDirectorySearchPath cfg fs w =
     (let exts = splitOn CHR '','' (fileExtensions cfg) in
      case WalkDir exts (directorySearchPath cfg) fs ([], w) of
        (err, (sent, w1)) \<Rightarrow> (sent, err, w1))"

subsection \<open>The per-page transform\<close>

text \<open>
  The result of \<^verbatim>\<open>os.Mkdir\<close> is discarded, and the directory it may create is not a
  temporary file of a page, so the call leaves the model's world as it is.
\<close>

definition createTempFile :: "config \<Rightarrow> env \<Rightarrow> page \<Rightarrow> world \<Rightarrow> error option \<times> page \<times> world" where
  "createTempFile cfg e p w =
     (let ext = Ext (filepath p) in
      case osCreateTemp e (filepath p) (workDirectory cfg) (''watermarker-*'' @ ext) of
        Inl msg \<Rightarrow> (Some (CreateTempFailed msg), p, w)
      | Inr name \<Rightarrow> (None, p\<lparr>tmpPath := name\<rparr>, w\<lparr>tempFiles := tempFiles w @ [name]\<rparr>))"

definition printCommandOutput :: "string \<Rightarrow> error option \<Rightarrow> world \<Rightarrow> world" where
  "printCommandOutput b err w = (if err \<noteq> None then println b w else w)"

definition convertArgs :: "config \<Rightarrow> page \<Rightarrow> string list" where
  "convertArgs cfg p =
     (let dims = formatInt (outputDimensionWidth cfg) @ ''x'' @ formatInt (outputDimensionHeight cfg)
      in [filepath p, ''-auto-orient'', ''-resize'', dims, ''-density'', ''150'', ''-strip'', tmpPath p])"

definition convert :: "config \<Rightarrow> env \<Rightarrow> page \<Rightarrow> world \<Rightarrow> error option \<times> world" where
  "convert cfg e p w =
     (case CombinedOutput e ''convert'' (convertArgs cfg p) w of
        (b, err, w1) \<Rightarrow> (err, printCommandOutput b err w1))"

definition watermarkArgs :: "config \<Rightarrow> page \<Rightarrow> string list" where
  "watermarkArgs cfg p =
     [tmpPath p,
      ''-colorspace'', ''sRGB'',
      ''-set'', ''option:WMSIZE'',
      ''%[fx:w/'' @ formatInt (watermarkImageScale cfg) @ '']x%[fx:h/'' @
        formatInt (watermarkImageScale cfg) @ '']'',
      ''('',
      watermarkFilePath cfg,
      ''-resize'',
      ''%[WMSIZE]'',
      '')'',
      ''-geometry'', ''+25+25'',
      ''-composite'',
      tmpPath p]"

definition watermark :: "config \<Rightarrow> env \<Rightarrow> page \<Rightarrow> world \<Rightarrow> error option \<times> world" where
  "watermark cfg e p w =
     (case CombinedOutput e ''magick'' (watermarkArgs cfg p) w of
        (b, err, w1) \<Rightarrow> (err, printCommandOutput b err w1))"

definition generate :: "config \<Rightarrow> env \<Rightarrow> page \<Rightarrow> world \<Rightarrow> error option \<times> page \<times> world" where
  "generate cfg e p w =
     (case createTempFile cfg e p w of
        (Some err, p1, w1) \<Rightarrow> (Some err, p1, w1)
      | (None, p1, w1) \<Rightarrow>
          (case convert cfg e p1 w1 of
             (Some err, w2) \<Rightarrow> (Some err, p1, w2)
           | (None, w2) \<Rightarrow>
               if 0 < length (watermarkFilePath cfg) then
                 (case watermark cfg e p1 w2 of
                    (Some err, w3) \<Rightarrow> (Some err, p1, w3)
                  | (None, w3) \<Rightarrow> (None, p1, w3))
               else (None, p1, w2)))"

subsection \<open>ingestPages\<close>

text \<open>The pattern \<^verbatim>\<open>.+(\d+)\.?\<close>, as \<^verbatim>\<open>regexp.MustCompile\<close> parses it.\<close>

definition pageNumberRegex :: regex where
  "pageNumberRegex =
     OpConcat (OpPlus OpAnyCharNotNL)
       (OpConcat (OpCapture 1 (OpPlus OpDigit)) (OpQuest (OpLiteral CHR ''.'')))"

text \<open>
  The page-number extraction of the loop body, from the file name to the number. The
  index expression \<^verbatim>\<open>matches[1]\<close> panics when the slice is too short.
\<close>

definition pageNumber :: "string \<Rightarrow> int result" where
  "pageNumber filename =
     (let matches = FindStringSubmatch pageNumberRegex filename in
      if length matches \<le> 1 then Panic (IndexOutOfRange 1 (length matches))
      else if length (matches ! 1) = 0 then Err (NoPageNumber filename)
      else (case Atoi (matches ! 1) of
              Inl err \<Rightarrow> Err err
            | Inr n \<Rightarrow> Ok n))"

text \<open>The loop over the channel: one page per path received, appended in that order.\<close>

fun ingestLoop :: "string list \<Rightarrow> page list \<Rightarrow> world \<Rightarrow> page list result \<times> world" where
  "ingestLoop [] pages w = (Ok pages, w)"
| "ingestLoop (path # rest) pages w =
     (case pageNumber (Base path) of
        Panic q \<Rightarrow> (Panic q, w)
      | Err err \<Rightarrow> (Err err, w)
      | Ok n \<Rightarrow>
          ingestLoop rest (pages @ [\<lparr>filepath = path, number = n, tmpPath = []\<rparr>])
            (println (''found page: '' @ path) w))"

text \<open>
  The comparison function of the sort, \<^verbatim>\<open>i.number - j.number\<close> on the 64-bit \<^verbatim>\<open>int\<close>.
\<close>

definition cmpPages :: "page \<Rightarrow> page \<Rightarrow> int" where
  "cmpPages i j = sint (word_of_int (number i) - word_of_int (number j) :: 64 word)"

text \<open>
  The walk runs in a goroutine of its own and hands each path over an unbuffered
  channel. The model lets the walk run first and the loop afterwards: the pages are the
  same, only the order of the printed lines between the two differs. An error during the
  walk panics in the goroutine and ends the process; the model reports it after the paths
  sent before it have been taken in.
\<close>

definition ingestPages :: "config \<Rightarrow> fsroot \<Rightarrow> world \<Rightarrow> page list result \<times> world" where
  "ingestPages cfg fs w =
     (case walkDirectorySearchPath cfg fs w of
        (sent, werr, w1) \<Rightarrow>
          (case ingestLoop sent [] w1 of
             (Ok pages, w2) \<Rightarrow>
               (case werr of
                  Some e \<Rightarrow> (Panic (WalkFailed e), w2)
                | None \<Rightarrow> (Ok (SortFunc pages cmpPages), w2))
           | (r, w2) \<Rightarrow> (r, w2)))"

subsection \<open>genProcessedPages, bundlePages and main\<close>

text \<open>
  One goroutine per page runs \<^verbatim>\<open>generate\<close> on its own element of the slice and prints one
  line. The goroutines share nothing but the outside world, so the model runs them one
  after the other in the order of the slice; the order of the printed lines and of the
  commands of different pages is that of one possible schedule.
\<close>

fun genProcessedPages :: "config \<Rightarrow> env \<Rightarrow> page list \<Rightarrow> world \<Rightarrow> page list \<times> world" where
  "genProcessedPages cfg e [] w = ([], w)"
| "genProcessedPages cfg e (p # ps) w =
     (case generate cfg e p w of
        (err, p1, w1) \<Rightarrow>
          let w2 = (if err \<noteq> None then println (''error processing page: '' @ filepath p1) w1
                    else println (''processed page: '' @ filepath p1) w1)
          in (case genProcessedPages cfg e ps w2 of (ps1, w3) \<Rightarrow> (p1 # ps1, w3)))"

definition bundleArgs :: "config \<Rightarrow> page list \<Rightarrow> string list" where
  "bundleArgs cfg pages = [''--output'', outputFilePath cfg] @ map tmpPath pages"

definition bundlePages :: "config \<Rightarrow> env \<Rightarrow> page list \<Rightarrow> world \<Rightarrow> error option \<times> world" where
  "bundlePages cfg e pages w =
     (case CombinedOutput e ''img2pdf'' (bundleArgs cfg pages) w of
        (b, err, w1) \<Rightarrow> (err, printCommandOutput b err w1))"

text \<open>The text of an error, as the verb \<^verbatim>\<open>%v\<close> prints it.\<close>

fun errorString :: "error \<Rightarrow> string" where
  "errorString (NoPageNumber filename) = ''no page number found in filename: '' @ filename"
| "errorString (AtoiSyntax s) = ''strconv.Atoi: parsing '' @ [CHR 0x22] @ s @ [CHR 0x22] @ '': invalid syntax''"
| "errorString (AtoiRange s) = ''strconv.Atoi: parsing '' @ [CHR 0x22] @ s @ [CHR 0x22] @ '': value out of range''"
| "errorString (CreateTempFailed msg) = msg"
| "errorString (ExitError msg) = msg"

datatype exit = Returned | Crashed panic

fun removeTempFiles :: "page list \<Rightarrow> world \<Rightarrow> world" where
  "removeTempFiles [] w = w"
| "removeTempFiles (p # ps) w = removeTempFiles ps (osRemove (tmpPath p) w)"

definition main :: "config \<Rightarrow> env \<Rightarrow> fsroot \<Rightarrow> world \<Rightarrow> exit \<times> world" where
  "main cfg e fs w =
     (if length (directorySearchPath cfg) = 0 \<or> length (outputFilePath cfg) = 0 then
        (Returned, println ''Usage: watermarker -dir <directory> -output <output path> [options]'' w)
      else
        (case ingestPages cfg fs w of
           (Panic q, w1) \<Rightarrow> (Crashed q, w1)
         | (Err err, w1) \<Rightarrow> (Returned, println (''error ingesting pages: '' @ errorString err) w1)
         | (Ok pages, w1) \<Rightarrow>
             (case genProcessedPages cfg e pages w1 of
                (pages1, w2) \<Rightarrow>
                  (case bundlePages cfg e pages1 (println ''bundling...'' w2) of
                     (Some err, w3) \<Rightarrow>
                       (Returned, println (''error bundling pages: '' @ errorString err) w3)
                   | (None, w3) \<Rightarrow> (Returned, removeTempFiles pages1 w3)))))"


section \<open>Definitions used in the statements\<close>

text \<open>
  The threads of a greedy \<^verbatim>\<open>+\<close> over a class of characters: one per non-empty prefix of
  the longest run of such characters, the longest prefix first. \<open>tailThreads\<close> are the
  threads of the pattern after its leading \<^verbatim>\<open>.+\<close>.
\<close>

fun plusStates :: "(char \<Rightarrow> bool) \<Rightarrow> string \<Rightarrow> string list" where
  "plusStates P [] = []"
| "plusStates P (x # xs) = (if P x then plusStates P xs @ [xs] else [])"

definition tailThreads :: "thread \<Rightarrow> thread list" where
  "tailThreads t = backtrack (OpConcat (OpCapture 1 (OpPlus OpDigit)) (OpQuest (OpLiteral CHR ''.''))) t"

text \<open>
  The files under a directory tree, in the words of the specification: the paths of all
  entries that are not directories, in the order of a depth-first walk. A tree is
  readable when it has no directory that cannot be read.
\<close>

fun filesUnder :: "string \<Rightarrow> fsnode \<Rightarrow> string list"
  and filesUnderEntries :: "string \<Rightarrow> fsnode list \<Rightarrow> string list" where
  "filesUnder path (File n) = [path]"
| "filesUnder path (Dir n entries) = filesUnderEntries path entries"
| "filesUnder path (UnreadableDir n e) = []"
| "filesUnderEntries path [] = []"
| "filesUnderEntries path (d1 # ds) =
     filesUnder (Join path (nodeName d1)) d1 @ filesUnderEntries path ds"

fun readable :: "fsnode \<Rightarrow> bool" where
  "readable (File n) = True"
| "readable (Dir n entries) = list_all readable entries"
| "readable (UnreadableDir n e) = False"

definition skippedLines :: "string list \<Rightarrow> string list \<Rightarrow> string list" where
  "skippedLines exts paths =
     map (\<lambda>p. ''skipping: '' @ p) (filter (\<lambda>p. \<not> Contains exts (Ext p)) paths)"

definition walked :: "string list \<Rightarrow> string list \<Rightarrow> walkState \<Rightarrow> walkState" where
  "walked exts paths st =
     (fst st @ filter (\<lambda>p. Contains exts (Ext p)) paths,
      (snd st)\<lparr>stdout := stdout (snd st) @ skippedLines exts paths\<rparr>)"

text \<open>
  The page that \<open>generate\<close> leaves behind, and the world after the goroutine of one page
  has printed its line.
\<close>

definition tempPattern :: "page \<Rightarrow> string" where
  "tempPattern p = ''watermarker-*'' @ Ext (filepath p)"

definition generatedPage :: "config \<Rightarrow> env \<Rightarrow> page \<Rightarrow> page" where
  "generatedPage cfg e p =
     (case osCreateTemp e (filepath p) (workDirectory cfg) (tempPattern p) of
        Inl msg \<Rightarrow> p
      | Inr name \<Rightarrow> p\<lparr>tmpPath := name\<rparr>)"

definition afterPage :: "config \<Rightarrow> env \<Rightarrow> page \<Rightarrow> world \<Rightarrow> world" where
  "afterPage cfg e p w =
     (case generate cfg e p w of
        (err, p1, w1) \<Rightarrow>
          if err \<noteq> None then println (''error processing page: '' @ filepath p1) w1
          else println (''processed page: '' @ filepath p1) w1)"


text \<open>
  For the sort: the comparison agrees with the order of a key on the elements of the
  slice; a result differs from the slice only by a rearrangement of the elements with
  indices from \<open>a\<close> up to \<open>b\<close> (excluded); that range is sorted by the key.
\<close>

definition agree :: "('a \<Rightarrow> 'a \<Rightarrow> bool) \<Rightarrow> ('a \<Rightarrow> 'k::linorder) \<Rightarrow> 'a list \<Rightarrow> bool" where
  "agree lt key data = (\<forall>x \<in> set data. \<forall>y \<in> set data. lt x y = (key x < key y))"

definition framed :: "nat \<Rightarrow> nat \<Rightarrow> 'a list \<Rightarrow> 'a list \<Rightarrow> bool" where
  "framed a b data data' =
     (length data' = length data \<and> mset data' = mset data \<and>
      (\<forall>i < length data. i < a \<or> b \<le> i \<longrightarrow> data' ! i = data ! i))"

definition sortedRange :: "('a \<Rightarrow> 'k::linorder) \<Rightarrow> 'a list \<Rightarrow> nat \<Rightarrow> nat \<Rightarrow> bool" where
  "sortedRange key data a b = (\<forall>i j. a \<le> i \<and> i \<le> j \<and> j < b \<longrightarrow> key (data ! i) \<le> key (data ! j))"

definition slice :: "'a list \<Rightarrow> nat \<Rightarrow> nat \<Rightarrow> 'a list" where
  "slice data a b = take (b - a) (drop a data)"

text \<open>
  The invariant of the quicksort on a range that does not start the slice: the element
  before the range is not above any element of the range. And the heap property of node
  \<open>j\<close> in the heap of \<open>hi\<close> elements that starts at index \<open>first\<close>: no child of the node
  is above it.
\<close>

definition lowBound :: "('a \<Rightarrow> 'k::linorder) \<Rightarrow> 'a list \<Rightarrow> nat \<Rightarrow> nat \<Rightarrow> bool" where
  "lowBound key data a b =
     (0 < a \<longrightarrow> (\<forall>i. a \<le> i \<and> i < b \<longrightarrow> key (data ! (a - 1)) \<le> key (data ! i)))"

definition heapAt :: "('a \<Rightarrow> 'k::linorder) \<Rightarrow> 'a list \<Rightarrow> nat \<Rightarrow> nat \<Rightarrow> nat \<Rightarrow> bool" where
  "heapAt key data first hi j =
     (\<forall>c. (c = 2 * j + 1 \<or> c = 2 * j + 2) \<and> c < hi \<longrightarrow> key (data ! (first + c)) \<le> key (data ! (first + j)))"

text \<open>
  Concrete surroundings for the examples: a configuration with a watermark, a directory
  tree, and an environment in which the external command of the given name fails and no
  temporary file can be created for the page of the given source path.
\<close>

definition emptyWorld :: world where
  "emptyWorld = \<lparr>stdout = [], executed = [], tempFiles = []\<rparr>"

definition exampleConfig :: config where
  "exampleConfig =
     \<lparr>directorySearchPath = ''scans'', fileExtensions = ''.jpg,.jpeg'',
      watermarkFilePath = ''wm.png'', watermarkImageScale = 4,
      outputDimensionHeight = 1500, outputDimensionWidth = 1500,
      outputFilePath = ''out.pdf'', workDirectory = ''wd''\<rparr>"

definition exampleEnv :: "string \<Rightarrow> string \<Rightarrow> env" where
  "exampleEnv failingCommand noTempFor =
     \<lparr>osCreateTemp = (\<lambda>src dir pattern.
        if src = noTempFor then Inl ''no space left on device''
        else Inr (dir @ ''/watermarker-'' @ Base src)),
      runCommand = (\<lambda>name args.
        if name = failingCommand then (name @ '': failed'', Some ''exit status 1'')
        else ([], None))\<rparr>"

definition exampleTree :: fsnode where
  "exampleTree =
     Dir ''scans''
       [File ''a3.jpg'', File ''b2.JPG'',
        Dir ''more'' [File ''a1.jpeg'', File ''notes.txt''],
        File ''a2.jpg'']"

definition smallTree :: fsnode where
  "smallTree = Dir ''scans'' [File ''a2.jpg'', File ''a1.jpg'']"

definition pairTree :: fsnode where
  "pairTree = Dir ''scans'' [File ''b2.jpg'', File ''a1.jpg'', File ''c2.jpg'']"

definition shelfTree :: fsnode where
  "shelfTree =
     Dir ''scans''
       [File ''a1.jpg'', File ''b0.jpg'', File ''c0.jpg'', File ''d0.jpg'', File ''e0.jpg'',
        File ''f0.jpg'', File ''g0.jpg'', File ''h0.jpg'', File ''i0.jpg'', File ''j0.jpg'',
        File ''k0.jpg'', File ''l0.jpg'', File ''m0.jpg'']"

definition examplePage :: "string \<Rightarrow> int \<Rightarrow> string \<Rightarrow> page" where
  "examplePage path n tmp = \<lparr>filepath = path, number = n, tmpPath = tmp\<rparr>"

section \<open>The page number taken from a file name\<close>

lemma backtrack_plus_class:
  assumes "\<And>t. backtrack r t = step1 P t"
  shows "backtrack (OpPlus r) (s, c) = map (\<lambda>s'. (s', c)) (plusStates P s)"
proof (induction s)
  case Nil
  then show ?case by (subst backtrack.simps) (simp add: assms)
next
  case (Cons x xs)
  then show ?case by (subst backtrack.simps) (simp add: assms)
qed

lemma plusStates_shorter: "s' \<in> set (plusStates P s) \<Longrightarrow> length s' < length s"
  by (induction s) (auto split: if_splits)

lemma plusStates_suffix: "s' \<in> set (plusStates P s) \<Longrightarrow> \<exists>k. s = k @ s' \<and> k \<noteq> [] \<and> list_all P k"
  proof (induction s)
  case Nil
  then show ?case by simp
next
  case (Cons x xs)
  show ?case
  proof (cases "s' = xs")
    case True
    then show ?thesis using Cons.prems by (auto split: if_splits intro: exI [of _ "[x]"])
  next
    case False
    then have px: "P x" and "s' \<in> set (plusStates P xs)"
      using Cons.prems by (auto split: if_splits)
    then obtain k where "xs = k @ s'" "list_all P k" using Cons.IH by blast
    then show ?thesis using px by (auto intro: exI [of _ "x # k"])
  qed
qed


lemma backtrack_digits:
  "backtrack (OpPlus OpDigit) (s, c) = map (\<lambda>s'. (s', c)) (plusStates isDigit s)"
  by (rule backtrack_plus_class) (simp add: backtrack.simps)

lemma backtrack_anys:
  "backtrack (OpPlus OpAnyCharNotNL) (s, c) = map (\<lambda>s'. (s', c)) (plusStates (\<lambda>x. x \<noteq> CHR 0x0A) s)"
  by (rule backtrack_plus_class) (simp add: backtrack.simps)

lemma tailThreads_unfold:
  "tailThreads (s, c) =
     concat (map (\<lambda>s'. backtrack (OpLiteral CHR ''.'') (s', (1, take (length s - length s') s) # c)
                        @ [(s', (1, take (length s - length s') s) # c)])
                 (plusStates isDigit s))"
  unfolding tailThreads_def
  by (simp add: backtrack.simps(4,5,7) backtrack_digits comp_def)

lemma tailThreads_empty:
  "tailThreads (s, c) = [] \<longleftrightarrow> \<not> (\<exists>d rest. s = d # rest \<and> isDigit d)"
  by (cases s) (auto simp: tailThreads_unfold)

lemma backtrack_literal_caps:
  "t' \<in> set (backtrack (OpLiteral l) t) \<Longrightarrow> snd t' = snd t"
  by (cases t; cases "fst t") (auto simp: backtrack.simps split: if_splits)

lemma tailThreads_single:
  assumes "isDigit d" "\<not> (\<exists>d' rest'. rest = d' # rest' \<and> isDigit d')"
  shows "tailThreads (d # rest, c) \<noteq> [] \<and> snd (hd (tailThreads (d # rest, c))) = (1, [d]) # c"
proof -
  have "plusStates isDigit rest = []" using assms(2) by (cases rest) auto
  then have eq: "tailThreads (d # rest, c) =
      backtrack (OpLiteral CHR ''.'') (rest, (1, [d]) # c) @ [(rest, (1, [d]) # c)]"
    using assms(1) by (simp add: tailThreads_unfold)
  show ?thesis
  proof (cases "backtrack (OpLiteral CHR ''.'') (rest, (1, [d]) # c)")
    case Nil
    then show ?thesis by (simp add: eq)
  next
    case (Cons t ts)
    then have "snd t = (1, [d]) # c"
      using backtrack_literal_caps [of t "CHR ''.''" "(rest, (1, [d]) # c)"] by simp
    then show ?thesis unfolding eq Cons by simp
  qed
qed

lemma pageNumberRegex_unfold:
  "backtrack pageNumberRegex (s, c) =
     concat (map (\<lambda>s'. tailThreads (s', c)) (plusStates (\<lambda>x. x \<noteq> CHR 0x0A) s))"
  by (simp add: pageNumberRegex_def backtrack.simps(4) backtrack_anys tailThreads_def comp_def)

lemma isDigit_not_newline: "isDigit d \<Longrightarrow> d \<noteq> CHR 0x0A"
  by (auto simp: isDigit_def)

lemma pageNumberRegex_first:
  "backtrack pageNumberRegex (s, c) = [] \<or>
   (\<exists>d. isDigit d \<and> snd (hd (backtrack pageNumberRegex (s, c))) = (1, [d]) # c)"
proof (induction s)
  case Nil
  then show ?case by (simp add: pageNumberRegex_unfold)
next
  case (Cons x xs)
  show ?case
  proof (cases "x = CHR 0x0A")
    case True
    then show ?thesis by (simp add: pageNumberRegex_unfold)
  next
    case False
    then have step: "backtrack pageNumberRegex (x # xs, c) =
        backtrack pageNumberRegex (xs, c) @ tailThreads (xs, c)"
      by (simp add: pageNumberRegex_unfold)
    show ?thesis
    proof (cases "backtrack pageNumberRegex (xs, c) = []")
      case False
      then show ?thesis using Cons.IH by (auto simp: step)
    next
      case empty: True
      show ?thesis
      proof (cases "tailThreads (xs, c) = []")
        case True
        then show ?thesis by (simp add: step empty)
      next
        case False
        then obtain d rest where xs: "xs = d # rest" and d: "isDigit d"
          by (auto simp: tailThreads_empty)
        have "backtrack pageNumberRegex (d # rest, c) =
            backtrack pageNumberRegex (rest, c) @ tailThreads (rest, c)"
          using isDigit_not_newline [OF d] by (simp add: pageNumberRegex_unfold)
        then have "tailThreads (rest, c) = []" using empty xs by simp
        then have nodigit: "\<not> (\<exists>d' rest'. rest = d' # rest' \<and> isDigit d')"
          by (simp add: tailThreads_empty)
        have single: "tailThreads (d # rest, c) \<noteq> [] \<and>
            snd (hd (tailThreads (d # rest, c))) = (1, [d]) # c"
          by (rule tailThreads_single [OF d nodigit])
        have "backtrack pageNumberRegex (x # xs, c) = tailThreads (d # rest, c)"
          using step empty xs by simp
        then show ?thesis using single d by auto
      qed
    qed
  qed
qed

lemma leftmost_Some:
  "leftmost r s = Some (from, t) \<Longrightarrow>
   backtrack r (from, []) \<noteq> [] \<and> t = hd (backtrack r (from, []))"
  by (induction s) (auto split: list.splits)

lemma numSubexp_pageNumberRegex: "numSubexp pageNumberRegex = 1"
  by (simp add: pageNumberRegex_def)

lemma FindStringSubmatch_pageNumberRegex:
  "FindStringSubmatch pageNumberRegex s = [] \<or>
   (\<exists>m d. isDigit d \<and> FindStringSubmatch pageNumberRegex s = [m, [d]])"
proof (cases "leftmost pageNumberRegex s")
  case None
  then show ?thesis by (simp add: FindStringSubmatch_def)
next
  case (Some a)
  obtain "from" rest caps where a: "a = (from, (rest, caps))" by (cases a) auto
  have ne: "backtrack pageNumberRegex (from, []) \<noteq> []"
    and hd: "(rest, caps) = hd (backtrack pageNumberRegex (from, []))"
    using leftmost_Some [of pageNumberRegex s "from" "(rest, caps)"] Some a by auto
  obtain d where d: "isDigit d" and "snd (hd (backtrack pageNumberRegex (from, []))) = [(1, [d])]"
    using pageNumberRegex_first [of "from" "[]"] ne by auto
  then have "caps = [(1, [d])]" using hd by (metis snd_conv)
  then show ?thesis
    using d Some a by (auto simp: FindStringSubmatch_def numSubexp_pageNumberRegex)
qed

lemma Atoi_digit: "isDigit d \<Longrightarrow> Atoi [d] = Inr (int (digitVal d)) \<and> digitVal d \<le> 9"
  by (auto simp: Atoi_def isDigit_def digitVal_def decimalValue_def Let_def)

lemma pageNumber_cases:
  "pageNumber filename = Panic (IndexOutOfRange 1 0) \<or>
   (\<exists>n. pageNumber filename = Ok n \<and> 0 \<le> n \<and> n \<le> 9)"
  using FindStringSubmatch_pageNumberRegex [of filename]
  by (auto simp: pageNumber_def Let_def dest!: Atoi_digit)

lemma ingestLoop_numbers:
  "ingestLoop paths acc w = (Ok pages, w') \<Longrightarrow>
   \<forall>p \<in> set acc. 0 \<le> number p \<and> number p \<le> 9 \<Longrightarrow>
   \<forall>p \<in> set pages. 0 \<le> number p \<and> number p \<le> 9"
proof (induction paths arbitrary: acc w)
  case Nil
  then show ?case by simp
next
  case (Cons path rest)
  from pageNumber_cases [of "Base path"] show ?case
  proof
    assume "pageNumber (Base path) = Panic (IndexOutOfRange 1 0)"
    then show ?thesis using Cons.prems(1) by simp
  next
    assume "\<exists>n. pageNumber (Base path) = Ok n \<and> 0 \<le> n \<and> n \<le> 9"
    then obtain n where n: "pageNumber (Base path) = Ok n" "0 \<le> n" "n \<le> 9" by blast
    have "ingestLoop rest (acc @ [\<lparr>filepath = path, number = n, tmpPath = []\<rparr>])
            (println (''found page: '' @ path) w) = (Ok pages, w')"
      using Cons.prems(1) n(1) by simp
    then show ?thesis
      by (rule Cons.IH) (use Cons.prems(2) n(2,3) in auto)
  qed
qed

text \<open>
  Claim C10. Whenever \<open>pageNumberRegex\<close> matches a file name, its capture group holds
  exactly one decimal digit: the greedy \<^verbatim>\<open>.+\<close> takes every character up to the last digit
  it can leave to the group. So every page record that the loop of \<open>ingestPages\<close> creates
  has a number from 0 to 9.
\<close>

theorem C10_single_digit:
  "(FindStringSubmatch pageNumberRegex filename \<noteq> [] \<longrightarrow>
      (\<exists>d. isDigit d \<and> FindStringSubmatch pageNumberRegex filename ! 1 = [d])) \<and>
   (ingestLoop paths [] w = (Ok pages, w') \<longrightarrow>
      (\<forall>p \<in> set pages. 0 \<le> number p \<and> number p \<le> 9))"
proof (intro conjI impI)
  assume "FindStringSubmatch pageNumberRegex filename \<noteq> []"
  then show "\<exists>d. isDigit d \<and> FindStringSubmatch pageNumberRegex filename ! 1 = [d]"
    using FindStringSubmatch_pageNumberRegex [of filename] by auto
next
  assume "ingestLoop paths [] w = (Ok pages, w')"
  then show "\<forall>p \<in> set pages. 0 \<le> number p \<and> number p \<le> 9"
    by (rule ingestLoop_numbers) simp
qed

lemma example_submatch:
  "FindStringSubmatch pageNumberRegex ''scan-017.jpg'' = [''scan-017.'', ''7'']"
  by code_simp

lemma example_ingestLoop:
  "ingestLoop [''scans/scan-017.jpg'', ''scans/p3.jpeg''] [] emptyWorld =
     (Ok [\<lparr>filepath = ''scans/scan-017.jpg'', number = 7, tmpPath = []\<rparr>,
          \<lparr>filepath = ''scans/p3.jpeg'', number = 3, tmpPath = []\<rparr>],
      \<lparr>stdout = [''found page: scans/scan-017.jpg'', ''found page: scans/p3.jpeg''],
       executed = [], tempFiles = []\<rparr>)"
  by code_simp

theorem C10_single_digit_witness:
  "FindStringSubmatch pageNumberRegex ''scan-017.jpg'' \<noteq> [] \<and>
   (\<exists>d. isDigit d \<and> FindStringSubmatch pageNumberRegex ''scan-017.jpg'' ! 1 = [d]) \<and>
   fst (ingestLoop [''scans/scan-017.jpg'', ''scans/p3.jpeg''] [] emptyWorld) =
     Ok [\<lparr>filepath = ''scans/scan-017.jpg'', number = 7, tmpPath = []\<rparr>,
         \<lparr>filepath = ''scans/p3.jpeg'', number = 3, tmpPath = []\<rparr>] \<and>
   list_all (\<lambda>p. 0 \<le> number p \<and> number p \<le> 9)
     [\<lparr>filepath = ''scans/scan-017.jpg'', number = 7, tmpPath = []\<rparr>,
      \<lparr>filepath = ''scans/p3.jpeg'', number = 3, tmpPath = []\<rparr>]"
proof -
  let ?P = "[\<lparr>filepath = ''scans/scan-017.jpg'', number = 7, tmpPath = []\<rparr>,
             \<lparr>filepath = ''scans/p3.jpeg'', number = 3, tmpPath = []\<rparr>]"
  let ?W = "\<lparr>stdout = [''found page: scans/scan-017.jpg'', ''found page: scans/p3.jpeg''],
             executed = [], tempFiles = []\<rparr>"
  have h1: "FindStringSubmatch pageNumberRegex ''scan-017.jpg'' \<noteq> []"
    by (simp add: example_submatch)
  have run: "ingestLoop [''scans/scan-017.jpg'', ''scans/p3.jpeg''] [] emptyWorld = (Ok ?P, ?W)"
    by (rule example_ingestLoop)
  note c = C10_single_digit [of "''scan-017.jpg''" "[''scans/scan-017.jpg'', ''scans/p3.jpeg'']"
      emptyWorld ?P ?W]
  have h2: "\<exists>d. isDigit d \<and> FindStringSubmatch pageNumberRegex ''scan-017.jpg'' ! 1 = [d]"
    using c h1 by blast
  have h3: "\<forall>p \<in> set ?P. 0 \<le> number p \<and> number p \<le> 9"
    using c run by blast
  show ?thesis using h1 h2 h3 run by (simp add: list_all_iff)
qed

text \<open>
  Claim C2. The page number is meant to be the value of the last run of digits of the
  file name, 12 for \<^verbatim>\<open>page12b.jpg\<close>. The code yields 2 there: the capture group holds
  the last digit of the run only. (For \<^verbatim>\<open>scan-007.jpg\<close> the last digit and the run have
  the same value, 7.)
\<close>

theorem C2_last_digit_only:
  "pageNumber ''page12b.jpg'' = Ok 2 \<and> pageNumber ''scan-007.jpg'' = Ok 7"
  by code_simp

text \<open>
  Claim C4. For a file name without a digit the pattern does not match and
  \<^verbatim>\<open>FindStringSubmatch\<close> returns the nil slice, so the index expression \<^verbatim>\<open>matches[1]\<close>
  panics before the length check that was to return the error naming the file.
\<close>

theorem C4_no_digit_panics:
  "FindStringSubmatch pageNumberRegex ''cover.jpg'' = [] \<and>
   pageNumber ''cover.jpg'' = Panic (IndexOutOfRange 1 0) \<and>
   ingestLoop [''scans/cover.jpg''] [] emptyWorld = (Panic (IndexOutOfRange 1 0), emptyWorld)"
  by code_simp

section \<open>The sort\<close>

lemma length_swap [simp]: "length (swap data i j) = length data"
  by (simp add: swap_def)

lemma swap_nth:
  "i < length data \<Longrightarrow> j < length data \<Longrightarrow> k < length data \<Longrightarrow>
   swap data i j ! k = (if k = j then data ! i else if k = i then data ! j else data ! k)"
  by (simp add: swap_def nth_list_update)

lemma mset_swap_list [simp]:
  "i < length data \<Longrightarrow> j < length data \<Longrightarrow> mset (swap data i j) = mset data"
  by (simp add: swap_def mset_swap)

lemma framed_refl [simp]: "framed a b data data"
  by (simp add: framed_def)

lemma framed_trans: "framed a b d1 d2 \<Longrightarrow> framed a b d2 d3 \<Longrightarrow> framed a b d1 d3"
  by (simp add: framed_def)

lemma framed_mono: "framed a b d1 d2 \<Longrightarrow> a' \<le> a \<Longrightarrow> b \<le> b' \<Longrightarrow> framed a' b' d1 d2"
  by (auto simp: framed_def)

lemma framed_swap:
  "a \<le> i \<Longrightarrow> i < b \<Longrightarrow> a \<le> j \<Longrightarrow> j < b \<Longrightarrow> b \<le> length data \<Longrightarrow> framed a b data (swap data i j)"
  by (auto simp: framed_def swap_nth)

lemma framed_length: "framed a b d d' \<Longrightarrow> length d' = length d"
  by (simp add: framed_def)

lemma framed_mset: "framed a b d d' \<Longrightarrow> mset d' = mset d"
  by (simp add: framed_def)

lemma framed_set: "framed a b d d' \<Longrightarrow> set d' = set d"
  by (metis framed_mset set_mset_mset)

lemma framed_agree: "framed a b d d' \<Longrightarrow> agree lt key d \<Longrightarrow> agree lt key d'"
  by (simp add: agree_def framed_set)

lemma framed_outside: "framed a b d d' \<Longrightarrow> i < length d \<Longrightarrow> i < a \<or> b \<le> i \<Longrightarrow> d' ! i = d ! i"
  by (auto simp: framed_def)

lemma agree_nth:
  "agree lt key data \<Longrightarrow> i < length data \<Longrightarrow> j < length data \<Longrightarrow>
   lt (data ! i) (data ! j) = (key (data ! i) < key (data ! j))"
  by (simp add: agree_def)

lemma set_slice: "b \<le> length data \<Longrightarrow> set (slice data a b) = {data ! i | i. a \<le> i \<and> i < b}"
proof (intro equalityI subsetI)
  fix x
  assume b: "b \<le> length data" and "x \<in> set (slice data a b)"
  then obtain k where k: "k < length (slice data a b)" "x = slice data a b ! k"
    by (auto simp: in_set_conv_nth)
  then have "k < b - a" using b by (simp add: slice_def)
  moreover from this have "x = data ! (a + k)" using k b by (simp add: slice_def)
  ultimately show "x \<in> {data ! i | i. a \<le> i \<and> i < b}"
    by (intro CollectI exI [of _ "a + k"]) auto
next
  fix x
  assume b: "b \<le> length data" and "x \<in> {data ! i | i. a \<le> i \<and> i < b}"
  then obtain i where i: "x = data ! i" "a \<le> i" "i < b" by blast
  then have "i - a < length (slice data a b)" using b by (simp add: slice_def)
  moreover have "slice data a b ! (i - a) = data ! i" using i b by (simp add: slice_def)
  ultimately show "x \<in> set (slice data a b)" using i(1) by (metis nth_mem)
qed

lemma framed_slice:
  assumes "framed a b d d'" "a \<le> b" "b \<le> length d"
  shows "mset (slice d' a b) = mset (slice d a b)"
proof -
  have len: "length d' = length d" using assms(1) by (simp add: framed_def)
  have t: "take a d' = take a d"
    using assms len by (intro nth_equalityI) (auto simp: framed_def)
  have dr: "drop b d' = drop b d"
    using assms len by (intro nth_equalityI) (auto simp: framed_def)
  have split: "\<And>xs::'a list. b \<le> length xs \<Longrightarrow> xs = take a xs @ slice xs a b @ drop b xs"
    using assms(2)
    by (metis add_diff_cancel_left' append_take_drop_id drop_drop le_Suc_ex slice_def add.commute)
  have "mset d' = mset (take a d') + mset (slice d' a b) + mset (drop b d')"
    using split [of d'] assms(3) len by (metis mset_append add.assoc)
  moreover have "mset d = mset (take a d) + mset (slice d a b) + mset (drop b d)"
    using split [of d] assms(3) by (metis mset_append add.assoc)
  ultimately show ?thesis using assms(1) t dr by (simp add: framed_def)
qed

lemma framed_range_all:
  assumes "framed a b d d'" "a \<le> b" "b \<le> length d" "\<forall>i. a \<le> i \<and> i < b \<longrightarrow> P (d ! i)"
    and "a \<le> i" "i < b"
  shows "P (d' ! i)"
proof -
  have "d' ! i \<in> set (slice d' a b)"
    using assms(1,3,5,6) by (auto simp: set_slice framed_def)
  then have "d' ! i \<in> set (slice d a b)"
    using framed_slice [OF assms(1-3)] by (metis set_mset_mset)
  then show ?thesis using assms(3,4) by (auto simp: set_slice)
qed

lemma sortedRange_single: "b \<le> Suc a \<Longrightarrow> sortedRange key data a b"
  unfolding sortedRange_def
proof (intro allI impI)
  fix i j assume "b \<le> Suc a" "a \<le> i \<and> i \<le> j \<and> j < b"
  then have "i = j" by linarith
  then show "key (data ! i) \<le> key (data ! j)" by simp
qed

lemma insertionInner_framed:
  "j < length data \<Longrightarrow> a \<le> j \<Longrightarrow> framed a (Suc j) data (insertionInner lt data a j)"
proof (induction lt data a j rule: insertionInner.induct)
  case (1 lt data a j)
  show ?case
  proof (cases "a < j \<and> lt (data ! j) (data ! (j - 1))")
    case True
    have s: "framed a (Suc j) data (swap data j (j - 1))"
      using True 1(2) by (intro framed_swap) auto
    have "framed a (Suc (j - 1)) (swap data j (j - 1)) (insertionInner lt (swap data j (j - 1)) a (j - 1))"
      using True 1(2) by (intro 1(1)) auto
    then have "framed a (Suc j) (swap data j (j - 1)) (insertionInner lt (swap data j (j - 1)) a (j - 1))"
      by (rule framed_mono) auto
    with s have "framed a (Suc j) data (insertionInner lt (swap data j (j - 1)) a (j - 1))"
      by (rule framed_trans)
    then show ?thesis using True by (subst insertionInner.simps) simp
  next
    case False
    then show ?thesis by (subst insertionInner.simps) auto
  qed
qed

lemma insertionInner_sorted:
  assumes "agree lt key data" "a \<le> j" "j \<le> i" "i < length data"
    and "sortedRange key data a j" "sortedRange key data j (Suc i)"
    and "\<forall>p q. a \<le> p \<and> p < j \<and> j < q \<and> q \<le> i \<longrightarrow> key (data ! p) \<le> key (data ! q)"
  shows "sortedRange key (insertionInner lt data a j) a (Suc i)"
  using assms
proof (induction lt data a j rule: insertionInner.induct)
  case (1 lt data a j)
  note ag = 1(2) and aj = 1(3) and ji = 1(4) and il = 1(5)
    and pre = 1(6) and suf = 1(7) and cross = 1(8)
  have ltk: "lt (data ! j) (data ! (j - 1)) = (key (data ! j) < key (data ! (j - 1)))"
    using ag ji il by (intro agree_nth) auto
  show ?case
  proof (cases "a < j \<and> lt (data ! j) (data ! (j - 1))")
    case True
    let ?d = "swap data j (j - 1)"
    have j0: "0 < j" "j < length data" "j - 1 < length data" using True ji il by auto
    have nth: "\<And>k. k < length data \<Longrightarrow>
        ?d ! k = (if k = j - 1 then data ! j else if k = j then data ! (j - 1) else data ! k)"
      using j0 by (simp add: swap_nth)
    have small: "key (data ! j) < key (data ! (j - 1))" using True ltk by simp
    have "sortedRange key (insertionInner lt ?d a (j - 1)) a (Suc i)"
    proof (rule 1(1) [OF True])
      show "agree lt key ?d"
        using ag j0 by (intro framed_agree [OF framed_swap [of 0 j "length data" "j - 1"]]) auto
      show "a \<le> j - 1" using True by auto
      show "j - 1 \<le> i" using ji by simp
      show "i < length ?d" using il by simp
      show "sortedRange key ?d a (j - 1)"
        unfolding sortedRange_def
      proof (intro allI impI)
        fix p q assume h: "a \<le> p \<and> p \<le> q \<and> q < j - 1"
        then have "?d ! p = data ! p" "?d ! q = data ! q" using nth j0 by auto
        moreover have "key (data ! p) \<le> key (data ! q)"
          using pre h by (auto simp: sortedRange_def)
        ultimately show "key (?d ! p) \<le> key (?d ! q)" by simp
      qed
      show "sortedRange key ?d (j - 1) (Suc i)"
        unfolding sortedRange_def
      proof (intro allI impI)
        fix p q assume h: "j - 1 \<le> p \<and> p \<le> q \<and> q < Suc i"
        have ql: "q < length data" "p < length data" using h il by auto
        consider "p = j - 1" "q = j - 1" | "p = j - 1" "q = j" | "p = j - 1" "j < q"
          | "p = j" "q = j" | "p = j" "j < q" | "j < p"
          using h j0 by linarith
        then show "key (?d ! p) \<le> key (?d ! q)"
        proof cases
          case 1 then show ?thesis by simp
        next
          case 2 then show ?thesis using nth ql small j0 by auto
        next
          case 3
          then have "key (data ! j) \<le> key (data ! q)"
            using suf h by (auto simp: sortedRange_def)
          then show ?thesis using 3 nth ql j0 by auto
        next
          case 4 then show ?thesis by simp
        next
          case 5
          have "key (data ! (j - 1)) \<le> key (data ! q)"
            using cross 5 h True by auto
          then show ?thesis using 5 nth ql j0 by auto
        next
          case 6
          then have "key (data ! p) \<le> key (data ! q)"
            using suf h by (auto simp: sortedRange_def)
          then show ?thesis using 6 h nth ql j0 by auto
        qed
      qed
      show "\<forall>p q. a \<le> p \<and> p < j - 1 \<and> j - 1 < q \<and> q \<le> i \<longrightarrow> key (?d ! p) \<le> key (?d ! q)"
      proof (intro allI impI)
        fix p q assume h: "a \<le> p \<and> p < j - 1 \<and> j - 1 < q \<and> q \<le> i"
        have ql: "q < length data" "p < length data" using h il by auto
        have dp: "?d ! p = data ! p" using h nth ql by auto
        show "key (?d ! p) \<le> key (?d ! q)"
        proof (cases "q = j")
          case True
          have "key (data ! p) \<le> key (data ! (j - 1))"
            using pre h j0 by (auto simp: sortedRange_def)
          then show ?thesis using True nth ql j0 dp by auto
        next
          case False
          then have "a \<le> p \<and> p < j \<and> j < q \<and> q \<le> i" using h by linarith
          then have "key (data ! p) \<le> key (data ! q)" using cross by blast
          then show ?thesis using False h nth ql j0 dp by auto
        qed
      qed
    qed
    then show ?thesis using True by (subst insertionInner.simps) simp
  next
    case False
    have "sortedRange key data a (Suc i)"
      unfolding sortedRange_def
    proof (intro allI impI)
      fix p q assume h: "a \<le> p \<and> p \<le> q \<and> q < Suc i"
      consider "q < j" | "j \<le> p" | "p < j" "q = j" | "p < j" "j < q" using h by linarith
      then show "key (data ! p) \<le> key (data ! q)"
      proof cases
        case 1 then show ?thesis using pre h by (auto simp: sortedRange_def)
      next
        case 2 then show ?thesis using suf h by (auto simp: sortedRange_def)
      next
        case 3
        then have aj': "a < j" using h by simp
        then have "key (data ! (j - 1)) \<le> key (data ! j)" using False ltk by auto
        moreover have "key (data ! p) \<le> key (data ! (j - 1))"
          using pre 3 h by (auto simp: sortedRange_def)
        ultimately show ?thesis using 3 by simp
      next
        case 4 then show ?thesis using cross h by auto
      qed
    qed
    then show ?thesis using False by (subst insertionInner.simps) auto
  qed
qed

lemma insertionOuter_framed:
  "a < i \<Longrightarrow> b \<le> length data \<Longrightarrow> framed a b data (insertionOuter lt data a i b)"
proof (induction lt data a i b rule: insertionOuter.induct)
  case (1 lt data a i b)
  show ?case
  proof (cases "i < b")
    case True
    let ?d = "insertionInner lt data a i"
    have f1: "framed a (Suc i) data ?d" using True 1(2,3) by (intro insertionInner_framed) auto
    have f1': "framed a b data ?d" by (rule framed_mono [OF f1]) (use True in auto)
    have "framed a b ?d (insertionOuter lt ?d a (Suc i) b)"
      using True 1(2,3) f1 by (intro 1(1)) (auto simp: framed_length)
    with f1' show ?thesis using True by (subst insertionOuter.simps) (auto intro: framed_trans)
  next
    case False
    then show ?thesis by (subst insertionOuter.simps) simp
  qed
qed

lemma insertionOuter_sorted:
  "agree lt key data \<Longrightarrow> a < i \<Longrightarrow> i \<le> b \<Longrightarrow> b \<le> length data \<Longrightarrow> sortedRange key data a i \<Longrightarrow>
   sortedRange key (insertionOuter lt data a i b) a b"
proof (induction lt data a i b rule: insertionOuter.induct)
  case (1 lt data a i b)
  show ?case
  proof (cases "i < b")
    case True
    let ?d = "insertionInner lt data a i"
    have f1: "framed a (Suc i) data ?d" using True 1 by (intro insertionInner_framed) auto
    have s1: "sortedRange key ?d a (Suc i)"
      using 1(2-6) True
      by (intro insertionInner_sorted [where i = i]) (auto intro: sortedRange_single)
    have "sortedRange key (insertionOuter lt ?d a (Suc i) b) a b"
      using True 1(2-5) f1 s1 by (intro 1(1)) (auto simp: framed_length framed_agree)
    then show ?thesis using True by (subst insertionOuter.simps) simp
  next
    case False
    then show ?thesis using 1 by (subst insertionOuter.simps) simp
  qed
qed

lemma insertionSortCmpFunc_framed:
  "b \<le> length data \<Longrightarrow> framed a b data (insertionSortCmpFunc lt data a b)"
  unfolding insertionSortCmpFunc_def by (rule insertionOuter_framed) auto

lemma insertionSortCmpFunc_sorted:
  assumes "agree lt key data" "b \<le> length data"
  shows "sortedRange key (insertionSortCmpFunc lt data a b) a b"
proof (cases "a + 1 \<le> b")
  case True
  show ?thesis
    unfolding insertionSortCmpFunc_def
    using assms True by (intro insertionOuter_sorted) (auto intro: sortedRange_single)
next
  case False
  then show ?thesis by (intro sortedRange_single) auto
qed

lemma swap_adjacent_decomp:
  assumes "0 < j" "j < length data"
  shows "data = take (j - 1) data @ [data ! (j - 1), data ! j] @ drop (Suc j) data"
    and "swap data j (j - 1) = take (j - 1) data @ [data ! j, data ! (j - 1)] @ drop (Suc j) data"
proof -
  have j: "Suc (j - 1) = j" "j - 1 < length data" using assms by auto
  have "data = take (j - 1) data @ drop (j - 1) data" by simp
  also have "drop (j - 1) data = data ! (j - 1) # drop j data"
    using j by (metis Cons_nth_drop_Suc)
  also have "drop j data = data ! j # drop (Suc j) data"
    using assms by (metis Cons_nth_drop_Suc)
  finally show d: "data = take (j - 1) data @ [data ! (j - 1), data ! j] @ drop (Suc j) data" by simp
  show "swap data j (j - 1) = take (j - 1) data @ [data ! j, data ! (j - 1)] @ drop (Suc j) data"
  proof (rule nth_equalityI)
    show "length (swap data j (j - 1)) =
        length (take (j - 1) data @ [data ! j, data ! (j - 1)] @ drop (Suc j) data)"
      using assms by auto
  next
    fix k assume "k < length (swap data j (j - 1))"
    then have k: "k < length data" by simp
    consider "k < j - 1" | "k = j - 1" | "k = j" | "j < k" by linarith
    then show "swap data j (j - 1) ! k =
        (take (j - 1) data @ [data ! j, data ! (j - 1)] @ drop (Suc j) data) ! k"
    proof cases
      case 1 then show ?thesis using assms k j by (auto simp: swap_nth nth_append)
    next
      case 2 then show ?thesis using assms k j by (auto simp: swap_nth nth_append)
    next
      case 3 then show ?thesis using assms k j by (auto simp: swap_nth nth_append)
    next
      case 4
      then have "k - (j - 1) = Suc (Suc (k - Suc j))" using assms by linarith
      then show ?thesis using 4 assms k j by (auto simp: swap_nth nth_append)
    qed
  qed
qed

lemma swap_adjacent_filter:
  assumes "0 < j" "j < length data" "\<not> (P (data ! j) \<and> P (data ! (j - 1)))"
  shows "filter P (swap data j (j - 1)) = filter P data"
proof -
  have "filter P (swap data j (j - 1)) =
      filter P (take (j - 1) data @ [data ! j, data ! (j - 1)] @ drop (Suc j) data)"
    using swap_adjacent_decomp(2) [OF assms(1,2)] by simp
  also have "\<dots> = filter P (take (j - 1) data @ [data ! (j - 1), data ! j] @ drop (Suc j) data)"
    using assms(3) by auto
  also have "\<dots> = filter P data"
    using swap_adjacent_decomp(1) [OF assms(1,2)] by simp
  finally show ?thesis .
qed

lemma insertionInner_filter:
  "agree lt key data \<Longrightarrow> j < length data \<Longrightarrow>
   filter (\<lambda>x. key x = k) (insertionInner lt data a j) = filter (\<lambda>x. key x = k) data"
proof (induction lt data a j rule: insertionInner.induct)
  case (1 lt data a j)
  show ?case
  proof (cases "a < j \<and> lt (data ! j) (data ! (j - 1))")
    case True
    let ?d = "swap data j (j - 1)"
    have j0: "0 < j" "j - 1 < length data" using True 1(3) by auto
    have "key (data ! j) < key (data ! (j - 1))"
      using True agree_nth [OF 1(2) 1(3) j0(2)] by simp
    then have sw: "filter (\<lambda>x. key x = k) ?d = filter (\<lambda>x. key x = k) data"
      using j0 1(3) by (intro swap_adjacent_filter) auto
    have "agree lt key ?d"
      using 1(2,3) j0 by (intro framed_agree [OF framed_swap [of 0 j "length data" "j - 1"]]) auto
    then have "filter (\<lambda>x. key x = k) (insertionInner lt ?d a (j - 1)) = filter (\<lambda>x. key x = k) ?d"
      using True 1(3) by (intro 1(1)) auto
    then show ?thesis using True sw by (subst insertionInner.simps) simp
  next
    case False
    then show ?thesis by (subst insertionInner.simps) auto
  qed
qed

lemma insertionOuter_filter:
  "agree lt key data \<Longrightarrow> a < i \<Longrightarrow> b \<le> length data \<Longrightarrow>
   filter (\<lambda>x. key x = k) (insertionOuter lt data a i b) = filter (\<lambda>x. key x = k) data"
proof (induction lt data a i b rule: insertionOuter.induct)
  case (1 lt data a i b)
  show ?case
  proof (cases "i < b")
    case True
    let ?d = "insertionInner lt data a i"
    have f1: "framed a (Suc i) data ?d" using True 1 by (intro insertionInner_framed) auto
    have e1: "filter (\<lambda>x. key x = k) ?d = filter (\<lambda>x. key x = k) data"
      using True 1 by (intro insertionInner_filter) auto
    have "filter (\<lambda>x. key x = k) (insertionOuter lt ?d a (Suc i) b) = filter (\<lambda>x. key x = k) ?d"
      using True 1(2-4) f1 by (intro 1(1)) (auto simp: framed_length framed_agree)
    then show ?thesis using True e1 by (subst insertionOuter.simps) simp
  next
    case False
    then show ?thesis by (subst insertionOuter.simps) simp
  qed
qed

lemma sortedRange_whole:
  "sortedRange key data 0 (length data) \<Longrightarrow> sorted (map key data)"
  by (auto simp: sortedRange_def sorted_iff_nth_mono)

lemma insertionSort_is_sort_key:
  assumes "agree lt key data"
  shows "insertionSortCmpFunc lt data 0 (length data) = sort_key key data"
proof -
  let ?r = "insertionSortCmpFunc lt data 0 (length data)"
  have fr: "framed 0 (length data) data ?r" by (rule insertionSortCmpFunc_framed) simp
  have "sortedRange key ?r 0 (length data)"
    using assms by (intro insertionSortCmpFunc_sorted) auto
  then have so: "sorted (map key ?r)"
    using sortedRange_whole [of key ?r] fr by (simp add: framed_length)
  have fi: "\<And>k. filter (\<lambda>x. key x = k) ?r = filter (\<lambda>x. key x = k) data"
    unfolding insertionSortCmpFunc_def using assms by (intro insertionOuter_filter) auto
  have "sort_key key data = ?r"
  proof (rule properties_for_sort_key)
    show "mset ?r = mset data" using fr by (rule framed_mset)
    show "sorted (map key ?r)" by (rule so)
    fix k assume "k \<in> set ?r"
    show "filter (\<lambda>x. key k = key x) ?r = filter (\<lambda>x. key k = key x) data"
      using fi [of "key k"] by (simp add: eq_commute)
  qed
  then show ?thesis by simp
qed

lemma SortFunc_small:
  assumes "agree (\<lambda>x y. cmp x y < 0) key data" "length data \<le> 12"
  shows "SortFunc data cmp = sort_key key data"
  using assms
  by (subst SortFunc_def, subst pdqsortCmpFunc.simps) (simp add: insertionSort_is_sort_key)

subsection \<open>Heap sort: framing\<close>

lemma siftDown_unfold:
  assumes "child = 2 * root + 1"
    and "child' = (if child + 1 < hi \<and> lt (data ! (first + child)) (data ! (first + child + 1))
                   then child + 1 else child)"
  shows "siftDownCmpFunc lt data root hi first =
     (if hi \<le> child then data
      else if \<not> lt (data ! (first + root)) (data ! (first + child')) then data
      else siftDownCmpFunc lt (swap data (first + root) (first + child')) child' hi first)"
  by (subst siftDownCmpFunc.simps) (simp add: Let_def assms)

lemma siftDown_framed:
  "first + hi \<le> length data \<Longrightarrow> framed first (first + hi) data (siftDownCmpFunc lt data root hi first)"
proof (induction lt data root hi first rule: siftDownCmpFunc.induct)
  case (1 lt data root hi first)
  define child where "child = 2 * root + 1"
  define child' where "child' = (if child + 1 < hi \<and> lt (data ! (first + child)) (data ! (first + child + 1))
                      then child + 1 else child)"
  note unf = siftDown_unfold [where lt = lt and data = data and root = root and hi = hi and first = first,
      OF child_def child'_def]
  show ?case
  proof (cases "hi \<le> child")
    case True
    then show ?thesis by (simp add: unf)
  next
    case False
    have c': "child' < hi" "root < child'" using False by (auto simp: child'_def child_def)
    show ?thesis
    proof (cases "lt (data ! (first + root)) (data ! (first + child'))")
      case lt: True
      let ?d = "swap data (first + root) (first + child')"
      have s: "framed first (first + hi) data ?d"
        using c' 1(2) by (intro framed_swap) auto
      have "framed first (first + hi) ?d (siftDownCmpFunc lt ?d child' hi first)"
        using False lt 1(2) by (intro 1(1) [OF child_def _ child'_def]) auto
      with s have "framed first (first + hi) data (siftDownCmpFunc lt ?d child' hi first)"
        by (rule framed_trans)
      then show ?thesis using False lt by (simp add: unf)
    next
      case nlt: False
      then show ?thesis using False by (simp add: unf)
    qed
  qed
qed

lemma heapBuild_framed:
  "first + hi \<le> length data \<Longrightarrow> framed first (first + hi) data (heapBuild lt data i hi first)"
proof (induction i arbitrary: data)
  case 0
  then show ?case by (simp add: siftDown_framed)
next
  case (Suc i)
  let ?d = "siftDownCmpFunc lt data (Suc i) hi first"
  have f: "framed first (first + hi) data ?d" using Suc.prems by (rule siftDown_framed)
  have "framed first (first + hi) ?d (heapBuild lt ?d i hi first)"
    using Suc.prems f by (intro Suc.IH) (simp add: framed_length)
  with f have "framed first (first + hi) data (heapBuild lt ?d i hi first)" by (rule framed_trans)
  then show ?case by simp
qed

lemma heapPop_framed:
  "first + i < length data \<Longrightarrow> framed first (first + Suc i) data (heapPop lt data i first)"
proof (induction i arbitrary: data)
  case 0
  have "siftDownCmpFunc lt (swap data first first) 0 0 first = swap data first first"
    by (subst siftDownCmpFunc.simps) simp
  moreover have "framed first (first + Suc 0) data (swap data first first)"
    using 0 by (intro framed_swap) auto
  ultimately show ?case by simp
next
  case (Suc i)
  let ?s = "swap data first (first + Suc i)"
  let ?d = "siftDownCmpFunc lt ?s 0 (Suc i) first"
  have f1: "framed first (first + Suc (Suc i)) data ?s"
    using Suc.prems by (intro framed_swap) auto
  have "framed first (first + Suc i) ?s ?d"
    using Suc.prems by (intro siftDown_framed) auto
  then have f2: "framed first (first + Suc (Suc i)) ?s ?d" by (rule framed_mono) auto
  have "framed first (first + Suc i) ?d (heapPop lt ?d i first)"
    using Suc.prems f2 by (intro Suc.IH) (simp add: framed_length)
  then have f3: "framed first (first + Suc (Suc i)) ?d (heapPop lt ?d i first)"
    by (rule framed_mono) auto
  have "framed first (first + Suc (Suc i)) data (heapPop lt ?d i first)"
    by (rule framed_trans [OF framed_trans [OF f1 f2] f3])
  then show ?case by simp
qed

lemma heapSortCmpFunc_framed:
  assumes "a \<le> b" "b \<le> length data"
  shows "framed a b data (heapSortCmpFunc lt data a b)"
proof -
  let ?d1 = "heapBuild lt data ((b - a - 1) div 2) (b - a) a"
  have f1: "framed a b data ?d1"
    using heapBuild_framed [of a "b - a" data lt "(b - a - 1) div 2"] assms by simp
  show ?thesis
  proof (cases "b - a = 0")
    case True
    then show ?thesis using f1 by (simp add: heapSortCmpFunc_def Let_def)
  next
    case False
    have "framed a (a + Suc (b - a - 1)) ?d1 (heapPop lt ?d1 (b - a - 1) a)"
      using False assms f1 by (intro heapPop_framed) (simp add: framed_length)
    then have "framed a b ?d1 (heapPop lt ?d1 (b - a - 1) a)" using False assms by simp
    with f1 have "framed a b data (heapPop lt ?d1 (b - a - 1) a)" by (rule framed_trans)
    then show ?thesis using False by (simp add: heapSortCmpFunc_def Let_def)
  qed
qed

subsection \<open>Partition: framing\<close>

lemma partitionLoop_unfold:
  assumes "i' = scanUp (\<lambda>x. lt x (data ! a)) data i jj"
    and "jj' = scanDown (\<lambda>x. \<not> lt x (data ! a)) data i' jj"
  shows "partitionLoop lt data a i jj =
     (if jj' \<le> i' then (swap data (jj' - 1) a, jj' - 1)
      else partitionLoop lt (swap data i' (jj' - 1)) a (i' + 1) (jj' - 1))"
  by (subst partitionLoop.simps) (simp add: Let_def assms)

lemma partitionLoop_framed:
  "a < i \<Longrightarrow> a < jj \<Longrightarrow> jj \<le> length data \<Longrightarrow>
   framed a jj data (fst (partitionLoop lt data a i jj))"
proof (induction lt data a i jj rule: partitionLoop.induct)
  case (1 lt data a i jj)
  define i' where "i' = scanUp (\<lambda>x. lt x (data ! a)) data i jj"
  define jj' where "jj' = scanDown (\<lambda>x. \<not> lt x (data ! a)) data i' jj"
  note unf = partitionLoop_unfold [where lt = lt and data = data and a = a and i = i and jj = jj,
      OF i'_def jj'_def]
  have b1: "i \<le> i'" by (simp add: i'_def scanUp_ge)
  have b2: "min i' jj \<le> jj'" "jj' \<le> jj" by (simp_all add: jj'_def scanDown_min scanDown_le)
  show ?case
  proof (cases "jj' \<le> i'")
    case True
    have "0 < jj'" using b1 b2(1) 1(2,3) by linarith
    then have "framed a jj data (swap data (jj' - 1) a)"
      using b1 b2 1(2,3,4) by (intro framed_swap; linarith)
    then show ?thesis using True by (simp add: unf)
  next
    case False
    let ?d = "swap data i' (jj' - 1)"
    have s: "framed a jj data ?d"
      using False b1 b2 1(2,4) by (intro framed_swap; linarith)
    have "framed a (jj' - 1) ?d (fst (partitionLoop lt ?d a (i' + 1) (jj' - 1)))"
    proof (rule 1(1) [OF i'_def jj'_def False])
      show "a < i' + 1" using b1 1(2) by linarith
      show "a < jj' - 1" using False b1 1(2) by linarith
      show "jj' - 1 \<le> length ?d" using b2 1(4) by simp
    qed
    then have "framed a jj ?d (fst (partitionLoop lt ?d a (i' + 1) (jj' - 1)))"
      by (rule framed_mono) (use b2 in linarith)+
    with s have "framed a jj data (fst (partitionLoop lt ?d a (i' + 1) (jj' - 1)))"
      by (rule framed_trans)
    then show ?thesis using False by (simp add: unf)
  qed
qed

lemma partitionCmpFunc_unfold:
  assumes "data = swap data0 a pivot"
    and "i = scanUp (\<lambda>x. lt x (data ! a)) data (a + 1) b"
    and "jj = scanDown (\<lambda>x. \<not> lt x (data ! a)) data i b"
  shows "partitionCmpFunc lt data0 a b pivot =
     (if jj \<le> i then (swap data (jj - 1) a, jj - 1, True)
      else (fst (partitionLoop lt (swap data i (jj - 1)) a (i + 1) (jj - 1)),
            snd (partitionLoop lt (swap data i (jj - 1)) a (i + 1) (jj - 1)), False))"
  by (simp add: partitionCmpFunc_def Let_def assms split: prod.splits)

lemma partitionCmpFunc_framed:
  assumes "a \<le> pivot" "pivot < b" "b \<le> length data0"
  shows "framed a b data0 (fst (partitionCmpFunc lt data0 a b pivot))"
proof -
  define data where "data = swap data0 a pivot"
  define i where "i = scanUp (\<lambda>x. lt x (data ! a)) data (a + 1) b"
  define jj where "jj = scanDown (\<lambda>x. \<not> lt x (data ! a)) data i b"
  note unf = partitionCmpFunc_unfold [where lt = lt and ?data0.0 = data0 and a = a and b = b
      and pivot = pivot, OF data_def i_def jj_def]
  have ab: "a < b" using assms by simp
  have f0: "framed a b data0 data" unfolding data_def using assms by (intro framed_swap) auto
  have len: "length data = length data0" by (simp add: data_def)
  have b1: "a + 1 \<le> i" "i \<le> b" using ab by (simp_all add: i_def scanUp_ge scanUp_le)
  have b2: "i \<le> jj" "jj \<le> b" using b1 by (simp_all add: jj_def scanDown_ge scanDown_le)
  show ?thesis
  proof (cases "jj \<le> i")
    case True
    have "framed a b data (swap data (jj - 1) a)"
      using b1 b2 assms len by (intro framed_swap; linarith)
    with f0 have "framed a b data0 (swap data (jj - 1) a)" by (rule framed_trans)
    then show ?thesis using True by (simp add: unf)
  next
    case False
    let ?d = "swap data i (jj - 1)"
    have s: "framed a b data ?d" using False b1 b2 assms len by (intro framed_swap; linarith)
    have "framed a (jj - 1) ?d (fst (partitionLoop lt ?d a (i + 1) (jj - 1)))"
    proof (rule partitionLoop_framed)
      show "a < i + 1" using b1 by linarith
      show "a < jj - 1" using False b1 by linarith
      show "jj - 1 \<le> length ?d" using b2 assms len by simp
    qed
    then have "framed a b ?d (fst (partitionLoop lt ?d a (i + 1) (jj - 1)))"
      by (rule framed_mono) (use b2 in linarith)+
    with s have "framed a b data (fst (partitionLoop lt ?d a (i + 1) (jj - 1)))"
      by (rule framed_trans)
    with f0 have "framed a b data0 (fst (partitionLoop lt ?d a (i + 1) (jj - 1)))"
      by (rule framed_trans)
    then show ?thesis using False by (simp add: unf)
  qed
qed

lemma partitionEqualLoop_unfold:
  assumes "i' = scanUp (\<lambda>x. \<not> lt (data ! a) x) data i jj"
    and "jj' = scanDown (\<lambda>x. lt (data ! a) x) data i' jj"
  shows "partitionEqualLoop lt data a i jj =
     (if jj' \<le> i' then (data, i')
      else partitionEqualLoop lt (swap data i' (jj' - 1)) a (i' + 1) (jj' - 1))"
  by (subst partitionEqualLoop.simps) (simp add: Let_def assms)

lemma partitionEqualLoop_framed:
  "a < i \<Longrightarrow> jj \<le> length data \<Longrightarrow>
   framed a (max i jj) data (fst (partitionEqualLoop lt data a i jj))"
proof (induction lt data a i jj rule: partitionEqualLoop.induct)
  case (1 lt data a i jj)
  define i' where "i' = scanUp (\<lambda>x. \<not> lt (data ! a) x) data i jj"
  define jj' where "jj' = scanDown (\<lambda>x. lt (data ! a) x) data i' jj"
  note unf = partitionEqualLoop_unfold [where lt = lt and data = data and a = a and i = i and jj = jj,
      OF i'_def jj'_def]
  have b1: "i \<le> i'" by (simp add: i'_def scanUp_ge)
  have b2: "min i' jj \<le> jj'" "jj' \<le> jj" by (simp_all add: jj'_def scanDown_min scanDown_le)
  show ?case
  proof (cases "jj' \<le> i'")
    case True
    then show ?thesis by (simp add: unf)
  next
    case False
    let ?d = "swap data i' (jj' - 1)"
    have s: "framed a (max i jj) data ?d"
      using False b1 b2 1(2,3) by (intro framed_swap; linarith)
    have "framed a (max (i' + 1) (jj' - 1)) ?d (fst (partitionEqualLoop lt ?d a (i' + 1) (jj' - 1)))"
    proof (rule 1(1) [OF i'_def jj'_def False])
      show "a < i' + 1" using b1 1(2) by linarith
      show "jj' - 1 \<le> length ?d" using b2 1(3) by simp
    qed
    then have "framed a (max i jj) ?d (fst (partitionEqualLoop lt ?d a (i' + 1) (jj' - 1)))"
      by (rule framed_mono) (use b1 b2 False in linarith)+
    with s have "framed a (max i jj) data (fst (partitionEqualLoop lt ?d a (i' + 1) (jj' - 1)))"
      by (rule framed_trans)
    then show ?thesis using False by (simp add: unf)
  qed
qed

lemma partitionEqualCmpFunc_framed:
  assumes "a \<le> pivot" "pivot < b" "b \<le> length data"
  shows "framed a b data (fst (partitionEqualCmpFunc lt data a b pivot))"
proof -
  let ?d = "swap data a pivot"
  have f0: "framed a b data ?d" using assms by (intro framed_swap) auto
  have "framed a (max (a + 1) b) ?d (fst (partitionEqualLoop lt ?d a (a + 1) b))"
    using assms by (intro partitionEqualLoop_framed) auto
  moreover have "max (a + 1) b = b" using assms by simp
  ultimately have "framed a b ?d (fst (partitionEqualLoop lt ?d a (a + 1) b))" by simp
  with f0 have "framed a b data (fst (partitionEqualLoop lt ?d a (a + 1) b))" by (rule framed_trans)
  then show ?thesis by (simp add: partitionEqualCmpFunc_def)
qed

lemma lowBound_framed:
  assumes "lowBound key d a b" "framed a b d d'" "a \<le> b" "b \<le> length d"
  shows "lowBound key d' a b"
  unfolding lowBound_def
proof (intro impI allI)
  fix i assume a0: "0 < a" and i: "a \<le> i \<and> i < b"
  have "d' ! (a - 1) = d ! (a - 1)"
    using assms(2-4) a0 by (intro framed_outside [OF assms(2)]) auto
  moreover have "key (d ! (a - 1)) \<le> key (d' ! i)"
    using assms(1) a0 i
    by (intro framed_range_all [OF assms(2-4), where P = "\<lambda>x. key (d ! (a - 1)) \<le> key x"])
       (auto simp: lowBound_def)
  ultimately show "key (d' ! (a - 1)) \<le> key (d' ! i)" by simp
qed

lemma lowBound_mono: "lowBound key d a b \<Longrightarrow> b' \<le> b \<Longrightarrow> lowBound key d a b'"
  by (auto simp: lowBound_def)

subsection \<open>The partial insertion sort: framing\<close>

lemma shiftLeft_insertionInner:
  "agree lt key data \<Longrightarrow> a \<le> j \<Longrightarrow> j < length data \<Longrightarrow> lowBound key data a (Suc j) \<Longrightarrow>
   shiftLeft lt data j = insertionInner lt data a j"
proof (induction lt data j rule: shiftLeft.induct)
  case (1 lt data j)
  show ?case
  proof (cases "1 \<le> j \<and> lt (data ! j) (data ! (j - 1))")
    case True
    let ?d = "swap data j (j - 1)"
    have j0: "0 < j" "j - 1 < length data" using True 1(4) by auto
    have ltk: "key (data ! j) < key (data ! (j - 1))"
      using True agree_nth [OF 1(2) 1(4) j0(2)] by simp
    have aj: "a < j"
    proof (rule ccontr)
      assume "\<not> a < j"
      then have "a = j" using 1(3) by simp
      then have "key (data ! (j - 1)) \<le> key (data ! j)"
        using 1(5) j0 by (auto simp: lowBound_def)
      then show False using ltk by simp
    qed
    have nth: "\<And>k. k < length data \<Longrightarrow>
        ?d ! k = (if k = j - 1 then data ! j else if k = j then data ! (j - 1) else data ! k)"
      using j0 1(4) by (simp add: swap_nth)
    have "shiftLeft lt ?d (j - 1) = insertionInner lt ?d a (j - 1)"
    proof (rule 1(1))
      show "1 \<le> j" using j0 by simp
      show "\<not> \<not> lt (data ! j) (data ! (j - 1))" using True by simp
      show "agree lt key ?d"
        using 1(2,4) j0 by (intro framed_agree [OF framed_swap [of 0 j "length data" "j - 1"]]) auto
      show "a \<le> j - 1" using aj by simp
      show "j - 1 < length ?d" using j0 by simp
      show "lowBound key ?d a (Suc (j - 1))"
        unfolding lowBound_def
      proof (intro impI allI)
        fix i assume a0: "0 < a" and i: "a \<le> i \<and> i < Suc (j - 1)"
        have "?d ! (a - 1) = data ! (a - 1)" using nth [of "a - 1"] a0 aj 1(4) by auto
        moreover have "key (data ! (a - 1)) \<le> key (?d ! i)"
        proof (cases "i = j - 1")
          case True
          then have "?d ! i = data ! j" using nth [of i] j0 by simp
          then show ?thesis using 1(5) a0 aj by (auto simp: lowBound_def)
        next
          case False
          then have "?d ! i = data ! i" using nth [of i] i 1(4) by auto
          then show ?thesis using 1(5) a0 i by (auto simp: lowBound_def)
        qed
        ultimately show "key (?d ! (a - 1)) \<le> key (?d ! i)" by simp
      qed
    qed
    moreover have "shiftLeft lt data j = shiftLeft lt ?d (j - 1)"
      using True by (subst shiftLeft.simps) simp
    moreover have "insertionInner lt data a j = insertionInner lt ?d a (j - 1)"
      using True aj by (subst insertionInner.simps) simp
    ultimately show ?thesis by simp
  next
    case False
    have "shiftLeft lt data j = data" using False by (subst shiftLeft.simps) auto
    moreover have "insertionInner lt data a j = data"
      using False by (subst insertionInner.simps) auto
    ultimately show ?thesis by simp
  qed
qed

lemma shiftRight_framed:
  "lo < j \<Longrightarrow> b \<le> length data \<Longrightarrow> framed lo b data (shiftRight lt data j b)"
proof (induction lt data j b rule: shiftRight.induct)
  case (1 lt data j b)
  show ?case
  proof (cases "j < b \<and> lt (data ! j) (data ! (j - 1))")
    case True
    let ?d = "swap data j (j - 1)"
    have s: "framed lo b data ?d" using True 1(2,3) by (intro framed_swap; linarith)
    have "framed lo b ?d (shiftRight lt ?d (Suc j) b)"
      using True 1(2,3) by (intro 1(1)) auto
    with s have "framed lo b data (shiftRight lt ?d (Suc j) b)" by (rule framed_trans)
    then show ?thesis using True by (subst shiftRight.simps) simp
  next
    case False
    then show ?thesis by (subst shiftRight.simps) auto
  qed
qed

lemma scanSorted_bounds: "i \<le> scanSorted lt data i b \<and> (i \<le> b \<longrightarrow> scanSorted lt data i b \<le> b)"
proof (induction lt data i b rule: scanSorted.induct)
  case (1 lt data i b)
  show ?case
  proof (cases "i < b \<and> \<not> lt (data ! i) (data ! (i - 1))")
    case True
    then show ?thesis using 1 by (simp add: scanSorted.simps [of lt data i b])
  next
    case False
    then show ?thesis by (auto simp: scanSorted.simps [of lt data i b])
  qed
qed

lemma scanSorted_stop:
  "scanSorted lt data i b < b \<Longrightarrow> lt (data ! scanSorted lt data i b) (data ! (scanSorted lt data i b - 1))"
proof (induction lt data i b rule: scanSorted.induct)
  case (1 lt data i b)
  show ?case
  proof (cases "i < b \<and> \<not> lt (data ! i) (data ! (i - 1))")
    case True
    then show ?thesis using 1 by (simp add: scanSorted.simps [of lt data i b])
  next
    case False
    then show ?thesis using 1(2) by (auto simp: scanSorted.simps [of lt data i b])
  qed
qed

lemma scanSorted_sorted:
  "agree lt key data \<Longrightarrow> a < i \<Longrightarrow> i \<le> b \<Longrightarrow> b \<le> length data \<Longrightarrow> sortedRange key data a i \<Longrightarrow>
   sortedRange key data a (scanSorted lt data i b)"
proof (induction lt data i b rule: scanSorted.induct)
  case (1 lt data i b)
  show ?case
  proof (cases "i < b \<and> \<not> lt (data ! i) (data ! (i - 1))")
    case True
    have "i < length data" "i - 1 < length data" using True 1(5) by auto
    then have "lt (data ! i) (data ! (i - 1)) = (key (data ! i) < key (data ! (i - 1)))"
      by (rule agree_nth [OF 1(2)])
    then have "key (data ! (i - 1)) \<le> key (data ! i)" using True by auto
    have "sortedRange key data a (Suc i)"
      unfolding sortedRange_def
    proof (intro allI impI)
      fix p q assume h: "a \<le> p \<and> p \<le> q \<and> q < Suc i"
      show "key (data ! p) \<le> key (data ! q)"
      proof (cases "q = i")
        case q: True
        show ?thesis
        proof (cases "p = i")
          case True then show ?thesis using q by simp
        next
          case False
          then have "key (data ! p) \<le> key (data ! (i - 1))"
            using 1(6) h q 1(3) by (auto simp: sortedRange_def)
          then show ?thesis using \<open>key (data ! (i - 1)) \<le> key (data ! i)\<close> q by simp
        qed
      next
        case False
        then show ?thesis using 1(6) h by (auto simp: sortedRange_def)
      qed
    qed
    then have "sortedRange key data a (scanSorted lt data (Suc i) b)"
      using True 1(2-5) by (intro 1(1)) auto
    then show ?thesis using True by (subst scanSorted.simps) simp
  next
    case False
    then show ?thesis using 1(6) by (subst scanSorted.simps) auto
  qed
qed

lemma sortedRange_framed_below:
  assumes "sortedRange key d a hi" "framed lo b d d'" "hi \<le> lo" "hi \<le> length d"
  shows "sortedRange key d' a hi"
  unfolding sortedRange_def
proof (intro allI impI)
  fix p q assume h: "a \<le> p \<and> p \<le> q \<and> q < hi"
  then have "d' ! p = d ! p" "d' ! q = d ! q"
    using assms(3,4) by (auto intro!: framed_outside [OF assms(2)])
  then show "key (d' ! p) \<le> key (d' ! q)" using assms(1) h by (auto simp: sortedRange_def)
qed

lemma partialInsertionLoop_Suc:
  assumes "i' = scanSorted lt data i b"
    and "d1 = swap data i' (i' - 1)"
    and "d2 = (if 2 \<le> i' - a then shiftLeft lt d1 (i' - 1) else d1)"
    and "d3 = (if 2 \<le> b - i' then shiftRight lt d2 (i' + 1) b else d2)"
  shows "partialInsertionLoop lt data a b i (Suc steps) =
     (if i' = b then (data, True)
      else if b - a < 50 then (data, False)
      else partialInsertionLoop lt d3 a b i' steps)"
  by (simp add: Let_def assms)

lemma partialInsertionLoop_correct:
  "agree lt key data \<Longrightarrow> a < i \<Longrightarrow> i \<le> b \<Longrightarrow> b \<le> length data \<Longrightarrow> lowBound key data a b \<Longrightarrow>
   sortedRange key data a i \<Longrightarrow>
   framed a b data (fst (partialInsertionLoop lt data a b i steps)) \<and>
   (snd (partialInsertionLoop lt data a b i steps) \<longrightarrow>
      sortedRange key (fst (partialInsertionLoop lt data a b i steps)) a b)"
proof (induction steps arbitrary: data i)
  case 0
  then show ?case by simp
next
  case (Suc steps)
  note ag = Suc.prems(1) and ai = Suc.prems(2) and ib = Suc.prems(3) and bl = Suc.prems(4)
    and lb = Suc.prems(5) and so = Suc.prems(6)
  define i' where "i' = scanSorted lt data i b"
  define d1 where "d1 = swap data i' (i' - 1)"
  define d2 where "d2 = (if 2 \<le> i' - a then shiftLeft lt d1 (i' - 1) else d1)"
  define d3 where "d3 = (if 2 \<le> b - i' then shiftRight lt d2 (i' + 1) b else d2)"
  note unf = partialInsertionLoop_Suc [where lt = lt and data = data and i = i and b = b and a = a
      and steps = steps, OF i'_def d1_def d2_def d3_def]
  have bi: "i \<le> i'" "i' \<le> b" using scanSorted_bounds [of i lt data b] ib by (auto simp: i'_def)
  have so': "sortedRange key data a i'"
    unfolding i'_def using ag ai ib bl so by (rule scanSorted_sorted)
  show ?case
  proof (cases "i' = b")
    case True
    then show ?thesis unfolding unf using so' by simp
  next
    case nb: False
    show ?thesis
    proof (cases "b - a < 50")
      case True
      then show ?thesis unfolding unf using nb by simp
    next
      case False
      have i'b: "i' < b" using bi nb by simp
      have f1: "framed a b data d1"
        unfolding d1_def using ai bi i'b bl by (intro framed_swap; linarith)
      have len1: "length d1 = length data" by (simp add: d1_def)
      have ag1: "agree lt key d1" using f1 ag by (rule framed_agree)
      have ab: "a \<le> b" using ai ib by simp
      have lb1: "lowBound key d1 a b" by (rule lowBound_framed [OF lb f1 ab bl])
      have nth1: "\<And>k. k < length data \<Longrightarrow>
          d1 ! k = (if k = i' - 1 then data ! i' else if k = i' then data ! (i' - 1) else data ! k)"
        unfolding d1_def using i'b bl ai bi by (simp add: swap_nth)
      have so1: "sortedRange key d1 a (i' - 1)"
        unfolding sortedRange_def
      proof (intro allI impI)
        fix p q assume h: "a \<le> p \<and> p \<le> q \<and> q < i' - 1"
        then have "d1 ! p = data ! p" "d1 ! q = data ! q" using nth1 i'b bl by auto
        then show "key (d1 ! p) \<le> key (d1 ! q)" using so' h by (auto simp: sortedRange_def)
      qed
      have f2: "framed a i' d1 d2 \<and> sortedRange key d2 a i'"
      proof (cases "2 \<le> i' - a")
        case True
        have eq: "shiftLeft lt d1 (i' - 1) = insertionInner lt d1 a (i' - 1)"
        proof (rule shiftLeft_insertionInner [OF ag1])
          show "a \<le> i' - 1" using True by simp
          show "i' - 1 < length d1" using i'b bl len1 by simp
          show "lowBound key d1 a (Suc (i' - 1))" by (rule lowBound_mono [OF lb1]) (use i'b in simp)
        qed
        have "framed a (Suc (i' - 1)) d1 (insertionInner lt d1 a (i' - 1))"
          using True i'b bl len1 by (intro insertionInner_framed) auto
        moreover have "sortedRange key (insertionInner lt d1 a (i' - 1)) a (Suc (i' - 1))"
        proof (rule insertionInner_sorted [OF ag1])
          show "a \<le> i' - 1" using True by simp
          show "i' - 1 \<le> i' - 1" by simp
          show "i' - 1 < length d1" using i'b bl len1 by simp
          show "sortedRange key d1 a (i' - 1)" by (rule so1)
          show "sortedRange key d1 (i' - 1) (Suc (i' - 1))" by (rule sortedRange_single) simp
          show "\<forall>p q. a \<le> p \<and> p < i' - 1 \<and> i' - 1 < q \<and> q \<le> i' - 1 \<longrightarrow> key (d1 ! p) \<le> key (d1 ! q)"
            by auto
        qed
        moreover have "Suc (i' - 1) = i'" using True by simp
        moreover have "d2 = insertionInner lt d1 a (i' - 1)" using True eq by (simp add: d2_def)
        ultimately show ?thesis by simp
      next
        case False
        then have "i' = Suc a" using ai bi by simp
        then have "sortedRange key d1 a i'" by (intro sortedRange_single) simp
        then show ?thesis using False by (simp add: d2_def)
      qed
      have f2a: "framed a i' d1 d2" and so2: "sortedRange key d2 a i'" using f2 by simp_all
      have len2: "length d2 = length data" using framed_length [OF f2a] len1 by simp
      have f3: "framed i' b d2 d3"
      proof (cases "2 \<le> b - i'")
        case True
        have "framed i' b d2 (shiftRight lt d2 (i' + 1) b)"
          using bl len2 by (intro shiftRight_framed) auto
        then show ?thesis using True by (simp add: d3_def)
      next
        case False
        then show ?thesis by (simp add: d3_def)
      qed
      have f12: "framed a b d1 d2" by (rule framed_mono [OF f2a]) (use i'b in auto)
      have f23: "framed a b d2 d3" by (rule framed_mono [OF f3]) (use ai bi in auto)
      have f03: "framed a b data d3" by (rule framed_trans [OF framed_trans [OF f1 f12] f23])
      have so3: "sortedRange key d3 a i'"
      proof (rule sortedRange_framed_below [OF so2 f3])
        show "i' \<le> i'" by simp
        show "i' \<le> length d2" using i'b bl len2 by simp
      qed
      have ih: "framed a b d3 (fst (partialInsertionLoop lt d3 a b i' steps)) \<and>
          (snd (partialInsertionLoop lt d3 a b i' steps) \<longrightarrow>
             sortedRange key (fst (partialInsertionLoop lt d3 a b i' steps)) a b)"
      proof (rule Suc.IH)
        show "agree lt key d3" using f03 ag by (rule framed_agree)
        show "a < i'" using ai bi by simp
        show "i' \<le> b" using bi by simp
        show "b \<le> length d3" using f03 bl by (simp add: framed_length)
        show "lowBound key d3 a b" by (rule lowBound_framed [OF lb f03 ab bl])
        show "sortedRange key d3 a i'" by (rule so3)
      qed
      then have "framed a b data (fst (partialInsertionLoop lt d3 a b i' steps))"
        using f03 by (auto intro: framed_trans)
      then show ?thesis unfolding unf using ih nb False by simp
    qed
  qed
qed

lemma partialInsertionSortCmpFunc_correct:
  assumes "agree lt key data" "a < b" "b \<le> length data" "lowBound key data a b"
  shows "framed a b data (fst (partialInsertionSortCmpFunc lt data a b)) \<and>
    (snd (partialInsertionSortCmpFunc lt data a b) \<longrightarrow>
       sortedRange key (fst (partialInsertionSortCmpFunc lt data a b)) a b)"
  unfolding partialInsertionSortCmpFunc_def
  using assms by (intro partialInsertionLoop_correct) (auto intro: sortedRange_single)

subsection \<open>Reversal, pattern breaking and the choice of the pivot\<close>

lemma reverseRangeLoop_framed:
  "jj \<le> length data \<Longrightarrow> framed i jj data (reverseRangeLoop data i jj)"
proof (induction data i jj rule: reverseRangeLoop.induct)
  case (1 data i jj)
  show ?case
  proof (cases "i + 1 < jj")
    case True
    have f1: "framed i jj data (swap data i (jj - 1))"
      using True 1(2) by (intro framed_swap) auto
    have "framed (i + 1) (jj - 1) (swap data i (jj - 1)) (reverseRangeLoop (swap data i (jj - 1)) (i + 1) (jj - 1))"
      using True 1(2) by (intro 1(1)) auto
    then have f2: "framed i jj (swap data i (jj - 1)) (reverseRangeLoop (swap data i (jj - 1)) (i + 1) (jj - 1))"
      by (rule framed_mono) auto
    show ?thesis
      using framed_trans [OF f1 f2] True by (simp add: reverseRangeLoop.simps [of data i jj])
  next
    case False
    then show ?thesis by (simp add: reverseRangeLoop.simps [of data i jj])
  qed
qed

lemma reverseRangeCmpFunc_framed:
  "b \<le> length data \<Longrightarrow> framed a b data (reverseRangeCmpFunc data a b)"
  by (simp add: reverseRangeCmpFunc_def reverseRangeLoop_framed)

lemma bitsLen_bounds: "0 < n \<Longrightarrow> n < 2 ^ bitsLen n \<and> 2 ^ bitsLen n \<le> 2 * n"
proof (induction n rule: bitsLen.induct)
  case (1 n)
  show ?case
  proof (cases "n div 2 = 0")
    case True
    then have "n = 1" using 1(2) by auto
    then show ?thesis by (simp add: bitsLen.simps [of "Suc 0"] bitsLen.simps [of 0])
  next
    case False
    then have ih: "n div 2 < 2 ^ bitsLen (n div 2) \<and> 2 ^ bitsLen (n div 2) \<le> 2 * (n div 2)"
      using 1 by simp
    have "bitsLen n = Suc (bitsLen (n div 2))" using 1(2) by (simp add: bitsLen.simps [of n])
    then show ?thesis using ih by auto
  qed
qed

lemma masked_less:
  assumes "0 < len"
  shows "unat (r AND (nextPowerOfTwo len - 1)) < 2 * len"
proof (cases "bitsLen len < 64")
  case True
  have "nextPowerOfTwo len - 1 = (mask (bitsLen len) :: 64 word)"
    by (simp add: nextPowerOfTwo_def mask_eq_exp_minus_1)
  then have "r AND (nextPowerOfTwo len - 1) = take_bit (bitsLen len) r"
    by (simp add: take_bit_eq_mask)
  then have "unat (r AND (nextPowerOfTwo len - 1)) < 2 ^ bitsLen len"
    by (simp add: unsigned_take_bit_eq)
  then show ?thesis using bitsLen_bounds [OF assms] by linarith
next
  case False
  have "(2::nat) ^ 64 \<le> 2 ^ bitsLen len" by (rule power_increasing) (use False in auto)
  then have "(18446744073709551616::nat) \<le> 2 ^ bitsLen len" by simp
  moreover have "unat (r AND (nextPowerOfTwo len - 1)) < 18446744073709551616"
    using unsigned_less [of "r AND (nextPowerOfTwo len - 1)"] by simp
  ultimately show ?thesis using bitsLen_bounds [OF assms] by linarith
qed

lemma breakPatternsLoop_framed:
  "0 < len \<Longrightarrow> a + len \<le> b \<Longrightarrow> b \<le> length data \<Longrightarrow> a < idx + i \<Longrightarrow> idx - 1 + i + k \<le> b \<Longrightarrow>
   framed a b data (breakPatternsLoop data a len idx (nextPowerOfTwo len) random i k)"
proof (induction k arbitrary: data random i)
  case 0
  then show ?case by simp
next
  case (Suc k)
  define random' where "random' = xorshiftNext random"
  define other0 where "other0 = unat (random' AND (nextPowerOfTwo len - 1))"
  define other where "other = (if len \<le> other0 then other0 - len else other0)"
  have "other0 < 2 * len" unfolding other0_def using Suc.prems(1) by (rule masked_less)
  then have o: "other < len" unfolding other_def by auto
  have unf: "breakPatternsLoop data a len idx (nextPowerOfTwo len) random i (Suc k) =
      breakPatternsLoop (swap data (idx - 1 + i) (a + other)) a len idx (nextPowerOfTwo len) random' (Suc i) k"
    by (simp add: Let_def random'_def other0_def other_def)
  have f1: "framed a b data (swap data (idx - 1 + i) (a + other))"
    using Suc.prems o by (intro framed_swap) auto
  have f2: "framed a b (swap data (idx - 1 + i) (a + other))
      (breakPatternsLoop (swap data (idx - 1 + i) (a + other)) a len idx (nextPowerOfTwo len) random' (Suc i) k)"
    using Suc.prems by (intro Suc.IH) auto
  show ?case unfolding unf by (rule framed_trans [OF f1 f2])
qed

lemma breakPatternsCmpFunc_framed:
  assumes "a \<le> b" "b \<le> length data"
  shows "framed a b data (breakPatternsCmpFunc data a b)"
proof (cases "8 \<le> b - a")
  case True
  have "2 \<le> (b - a) div 4" using True by simp
  then have "framed a b data (breakPatternsLoop data a (b - a) (a + ((b - a) div 4) * 2 - 1)
      (nextPowerOfTwo (b - a)) (word_of_nat (b - a)) 0 3)"
    using True assms by (intro breakPatternsLoop_framed) auto
  then show ?thesis using True by (simp add: breakPatternsCmpFunc_def Let_def)
next
  case False
  then show ?thesis by (simp add: breakPatternsCmpFunc_def Let_def)
qed

lemma order2CmpFunc_cases:
  "order2CmpFunc lt data x y s = (p, q, s') \<Longrightarrow> (p = x \<and> q = y) \<or> (p = y \<and> q = x)"
  by (auto simp: order2CmpFunc_def split: if_splits)

lemma medianCmpFunc_cases:
  "fst (medianCmpFunc lt data x y z s) = x \<or> fst (medianCmpFunc lt data x y z s) = y \<or>
   fst (medianCmpFunc lt data x y z s) = z"
proof -
  obtain a1 b1 s1 where o1: "order2CmpFunc lt data x y s = (a1, b1, s1)" by (metis prod_cases3)
  obtain b2 c2 s2 where o2: "order2CmpFunc lt data b1 z s1 = (b2, c2, s2)" by (metis prod_cases3)
  obtain a3 b3 s3 where o3: "order2CmpFunc lt data a1 b2 s2 = (a3, b3, s3)" by (metis prod_cases3)
  have "fst (medianCmpFunc lt data x y z s) = b3" by (simp add: medianCmpFunc_def o1 o2 o3)
  then show ?thesis
    using order2CmpFunc_cases [OF o1] order2CmpFunc_cases [OF o2] order2CmpFunc_cases [OF o3] by auto
qed

lemma medianAdjacentCmpFunc_cases:
  "fst (medianAdjacentCmpFunc lt data x s) = x - 1 \<or> fst (medianAdjacentCmpFunc lt data x s) = x \<or>
   fst (medianAdjacentCmpFunc lt data x s) = x + 1"
  using medianCmpFunc_cases [of lt data "x - 1" x "x + 1" s] by (simp add: medianAdjacentCmpFunc_def)

lemma choosePivotCmpFunc_bounds:
  assumes "8 \<le> b - a"
  shows "a \<le> fst (choosePivotCmpFunc lt data a b) \<and> fst (choosePivotCmpFunc lt data a b) < b"
proof -
  define l where "l = b - a"
  define i0 where "i0 = a + l div 4 * 1"
  define j0 where "j0 = a + l div 4 * 2"
  define k0 where "k0 = a + l div 4 * 3"
  define js where "js =
            (if 50 \<le> l then
                  (case medianAdjacentCmpFunc lt data i0 0 of (i1, s1) \<Rightarrow>
                   case medianAdjacentCmpFunc lt data j0 s1 of (j1, s2) \<Rightarrow>
                   case medianAdjacentCmpFunc lt data k0 s2 of (k1, s3) \<Rightarrow>
                     medianCmpFunc lt data i1 j1 k1 s3)
                else medianCmpFunc lt data i0 j0 k0 0)"
  have l8: "8 \<le> l" using assms by (simp add: l_def)
  have aux: "\<And>p :: nat \<times> nat. fst (case p of (j, swaps) \<Rightarrow>
      if swaps = 0 then (j, increasingHint)
      else if swaps = 12 then (j, decreasingHint) else (j, unknownHint)) = fst p"
    by (simp split: prod.splits)
  have fst_eq: "fst (choosePivotCmpFunc lt data a b) = fst js"
    unfolding choosePivotCmpFunc_def Let_def aux js_def i0_def j0_def k0_def l_def
    using assms by simp
  have b0: "a < i0" "i0 \<le> j0" "j0 \<le> k0" "k0 < a + l"
    using l8 by (auto simp: i0_def j0_def k0_def)
  have "a \<le> fst js \<and> fst js < a + l"
  proof (cases "50 \<le> l")
    case True
    obtain i1 s1 where m1: "medianAdjacentCmpFunc lt data i0 0 = (i1, s1)" by fastforce
    obtain j1 s2 where m2: "medianAdjacentCmpFunc lt data j0 s1 = (j1, s2)" by fastforce
    obtain k1 s3 where m3: "medianAdjacentCmpFunc lt data k0 s2 = (k1, s3)" by fastforce
    have k0': "k0 + 1 < a + l" using True by (simp add: k0_def)
    have i0': "a + 1 < i0" using True by (simp add: i0_def)
    have "a \<le> i1 \<and> i1 < a + l"
      using medianAdjacentCmpFunc_cases [of lt data i0 0] m1 b0 k0' i0' by auto
    moreover have "a \<le> j1 \<and> j1 < a + l"
      using medianAdjacentCmpFunc_cases [of lt data j0 s1] m2 b0 k0' i0' by auto
    moreover have "a \<le> k1 \<and> k1 < a + l"
      using medianAdjacentCmpFunc_cases [of lt data k0 s2] m3 b0 k0' i0' by auto
    moreover have "fst js = fst (medianCmpFunc lt data i1 j1 k1 s3)"
      using True by (simp add: js_def m1 m2 m3)
    ultimately show ?thesis using medianCmpFunc_cases [of lt data i1 j1 k1 s3] by auto
  next
    case False
    then have "fst js = fst (medianCmpFunc lt data i0 j0 k0 0)" by (simp add: js_def)
    then show ?thesis using medianCmpFunc_cases [of lt data i0 j0 k0 0] b0 by auto
  qed
  then show ?thesis using fst_eq assms by (simp add: l_def)
qed

subsection \<open>The partitions: what they establish\<close>

lemma scanUp_all: "i \<le> k \<Longrightarrow> k < scanUp P data i jj \<Longrightarrow> P (data ! k)"
proof (induction P data i jj rule: scanUp.induct)
  case (1 P data i jj)
  show ?case
  proof (cases "i < jj \<and> P (data ! i)")
    case True
    then have eq: "scanUp P data i jj = scanUp P data (Suc i) jj"
      by (simp add: scanUp.simps [of P data i jj])
    show ?thesis
    proof (cases "k = i")
      case True
      then show ?thesis using \<open>i < jj \<and> P (data ! i)\<close> by simp
    next
      case False
      then have "Suc i \<le> k" using 1(2) by simp
      then show ?thesis using 1(1) [OF True] 1(3) eq by simp
    qed
  next
    case False
    then have "scanUp P data i jj = i" by (subst scanUp.simps) auto
    then show ?thesis using 1(2,3) by simp
  qed
qed

lemma scanUp_stop: "scanUp P data i jj < jj \<Longrightarrow> \<not> P (data ! scanUp P data i jj)"
proof (induction P data i jj rule: scanUp.induct)
  case (1 P data i jj)
  show ?case
  proof (cases "i < jj \<and> P (data ! i)")
    case True
    then have eq: "scanUp P data i jj = scanUp P data (Suc i) jj"
      by (simp add: scanUp.simps [of P data i jj])
    show ?thesis using 1(1) [OF True] 1(2) unfolding eq by simp
  next
    case False
    then have eq: "scanUp P data i jj = i" by (subst scanUp.simps) auto
    show ?thesis using False 1(2) unfolding eq by simp
  qed
qed

lemma scanDown_all: "scanDown P data i jj \<le> k \<Longrightarrow> k < jj \<Longrightarrow> P (data ! k)"
proof (induction P data i jj rule: scanDown.induct)
  case (1 P data i jj)
  show ?case
  proof (cases "i < jj \<and> P (data ! (jj - 1))")
    case True
    then have eq: "scanDown P data i jj = scanDown P data i (jj - 1)"
      by (simp add: scanDown.simps [of P data i jj])
    show ?thesis
    proof (cases "k = jj - 1")
      case True
      then show ?thesis using \<open>i < jj \<and> P (data ! (jj - 1))\<close> by simp
    next
      case False
      then have "k < jj - 1" using 1(3) by simp
      then show ?thesis using 1(1) [OF True] 1(2) eq by simp
    qed
  next
    case False
    then have "scanDown P data i jj = jj" by (subst scanDown.simps) auto
    then show ?thesis using 1(2,3) by simp
  qed
qed

lemma scanDown_stop: "i < scanDown P data i jj \<Longrightarrow> \<not> P (data ! (scanDown P data i jj - 1))"
proof (induction P data i jj rule: scanDown.induct)
  case (1 P data i jj)
  show ?case
  proof (cases "i < jj \<and> P (data ! (jj - 1))")
    case True
    then have eq: "scanDown P data i jj = scanDown P data i (jj - 1)"
      by (simp add: scanDown.simps [of P data i jj])
    show ?thesis using 1(1) [OF True] 1(2) unfolding eq by simp
  next
    case False
    then have eq: "scanDown P data i jj = jj" by (subst scanDown.simps) auto
    show ?thesis using False 1(2) unfolding eq by simp
  qed
qed

lemma swap_nth_other: "k \<noteq> i \<Longrightarrow> k \<noteq> j \<Longrightarrow> swap data i j ! k = data ! k"
  by (simp add: swap_def)

lemma swap_nth_fst: "i < length data \<Longrightarrow> j < length data \<Longrightarrow> swap data i j ! i = data ! j"
  by (simp add: swap_def nth_list_update)

lemma swap_nth_snd: "i < length data \<Longrightarrow> j < length data \<Longrightarrow> swap data i j ! j = data ! i"
  by (simp add: swap_def nth_list_update)

lemma partitionLoop_post:
  "partitionLoop lt data a i jj = (data', mid) \<Longrightarrow> a < i \<Longrightarrow> i \<le> jj \<Longrightarrow> jj \<le> b \<Longrightarrow> b \<le> length data \<Longrightarrow>
   \<forall>k. a < k \<and> k < i \<longrightarrow> lt (data ! k) (data ! a) \<Longrightarrow>
   \<forall>k. jj \<le> k \<and> k < b \<longrightarrow> \<not> lt (data ! k) (data ! a) \<Longrightarrow>
   a \<le> mid \<and> mid < b \<and> data' ! mid = data ! a \<and>
   (\<forall>k. a \<le> k \<and> k < mid \<longrightarrow> lt (data' ! k) (data ! a)) \<and>
   (\<forall>k. mid < k \<and> k < b \<longrightarrow> \<not> lt (data' ! k) (data ! a))"
proof (induction lt data a i jj arbitrary: data' mid rule: partitionLoop.induct)
  case (1 lt data a i jj)
  define i' where "i' = scanUp (\<lambda>x. lt x (data ! a)) data i jj"
  define jj' where "jj' = scanDown (\<lambda>x. \<not> lt x (data ! a)) data i' jj"
  note unf = partitionLoop_unfold [where lt = lt and data = data and a = a and i = i and jj = jj,
      OF i'_def jj'_def]
  note res = 1(2) and ai = 1(3) and ij = 1(4) and jb = 1(5) and bl = 1(6) and left = 1(7) and right = 1(8)
  have b1: "i \<le> i'" "i' \<le> jj" using ij by (simp_all add: i'_def scanUp_ge scanUp_le)
  have b2: "i' \<le> jj'" "jj' \<le> jj" using b1 by (simp_all add: jj'_def scanDown_ge scanDown_le)
  have left': "lt (data ! k) (data ! a)" if "a < k" "k < i'" for k
  proof (cases "k < i")
    case True
    then show ?thesis using left that by simp
  next
    case False
    then have "i \<le> k" by simp
    then show ?thesis using scanUp_all [of i k "\<lambda>x. lt x (data ! a)" data jj] that by (simp add: i'_def)
  qed
  have right': "\<not> lt (data ! k) (data ! a)" if "jj' \<le> k" "k < b" for k
  proof (cases "k < jj")
    case True
    then show ?thesis
      using scanDown_all [of "\<lambda>x. \<not> lt x (data ! a)" data i' jj k] that by (simp add: jj'_def)
  next
    case False
    then show ?thesis using right that by simp
  qed
  show ?case
  proof (cases "jj' \<le> i'")
    case True
    then have e: "jj' = i'" using b2 by simp
    have r: "data' = swap data (i' - 1) a" "mid = i' - 1" using res True e by (auto simp: unf)
    have len: "i' - 1 < length data" "a < length data" using b1 jb bl ai by simp_all
    have m1: "a \<le> mid \<and> mid < b" using r(2) b1 ai jb by linarith
    have m2: "data' ! mid = data ! a" unfolding r using len by (rule swap_nth_fst)
    have m3: "lt (data' ! k) (data ! a)" if "a \<le> k" "k < mid" for k
    proof (cases "k = a")
      case True
      have "a < i' - 1" using that r(2) by linarith
      then have "lt (data ! (i' - 1)) (data ! a)" by (intro left') simp_all
      moreover have "data' ! a = data ! (i' - 1)" unfolding r using len by (rule swap_nth_snd)
      ultimately show ?thesis using True by simp
    next
      case False
      have "a < k" "k < i'" using that False r(2) by linarith+
      then have "lt (data ! k) (data ! a)" by (rule left')
      moreover have "k \<noteq> i' - 1" using that r(2) by linarith
      then have "data' ! k = data ! k" unfolding r using False by (intro swap_nth_other)
      ultimately show ?thesis by simp
    qed
    have m4: "\<not> lt (data' ! k) (data ! a)" if "mid < k" "k < b" for k
    proof -
      have "jj' \<le> k" using that r(2) e by linarith
      then have "\<not> lt (data ! k) (data ! a)" using that by (intro right')
      moreover have "k \<noteq> i' - 1" "k \<noteq> a" using that r(2) ai b1 by linarith+
      then have "data' ! k = data ! k" unfolding r by (intro swap_nth_other)
      ultimately show ?thesis by simp
    qed
    show ?thesis using m1 m2 m3 m4 by blast
  next
    case False
    then have lt': "i' < jj'" by simp
    define d1 where "d1 = swap data i' (jj' - 1)"
    have eq: "partitionLoop lt d1 a (i' + 1) (jj' - 1) = (data', mid)"
      using res False by (simp add: unf d1_def)
    have stop1: "\<not> lt (data ! i') (data ! a)"
      using scanUp_stop [of "\<lambda>x. lt x (data ! a)" data i jj] lt' b2 by (simp add: i'_def)
    have stop2: "lt (data ! (jj' - 1)) (data ! a)"
      using scanDown_stop [of i' "\<lambda>x. \<not> lt x (data ! a)" data jj] lt' by (simp add: jj'_def)
    have ne: "i' \<noteq> jj' - 1" using stop1 stop2 by auto
    have len: "i' < length data" "jj' - 1 < length data" using lt' b2 jb bl by simp_all
    have jp: "0 < jj'" using lt' by simp
    have da: "d1 ! a = data ! a"
    proof -
      have "a \<noteq> i'" "a \<noteq> jj' - 1" using ai b1 lt' by linarith+
      then show ?thesis unfolding d1_def by (intro swap_nth_other)
    qed
    have ih: "a \<le> mid \<and> mid < b \<and> data' ! mid = d1 ! a \<and>
       (\<forall>k. a \<le> k \<and> k < mid \<longrightarrow> lt (data' ! k) (d1 ! a)) \<and>
       (\<forall>k. mid < k \<and> k < b \<longrightarrow> \<not> lt (data' ! k) (d1 ! a))"
    proof (rule 1(1) [OF i'_def jj'_def False, folded d1_def, OF eq])
      show "a < i' + 1" using ai b1 by simp
      show "i' + 1 \<le> jj' - 1" using lt' ne by linarith
      show "jj' - 1 \<le> b" using b2 jb by linarith
      show "b \<le> length d1" using bl by (simp add: d1_def)
      show "\<forall>k. a < k \<and> k < i' + 1 \<longrightarrow> lt (d1 ! k) (d1 ! a)"
      proof (intro allI impI)
        fix k assume "a < k \<and> k < i' + 1"
        then have k: "a < k" "k < i' + 1" by simp_all
        show "lt (d1 ! k) (d1 ! a)"
        proof (cases "k = i'")
          case True
          have "d1 ! i' = data ! (jj' - 1)" unfolding d1_def using len by (rule swap_nth_fst)
          then show ?thesis using True stop2 da by simp
        next
          case False
          have "k < i'" using k False by linarith
          then have "lt (data ! k) (data ! a)" using k by (intro left')
          moreover have "k \<noteq> jj' - 1" using \<open>k < i'\<close> lt' by linarith
          then have "d1 ! k = data ! k" unfolding d1_def using False by (intro swap_nth_other)
          ultimately show ?thesis using da by simp
        qed
      qed
      show "\<forall>k. jj' - 1 \<le> k \<and> k < b \<longrightarrow> \<not> lt (d1 ! k) (d1 ! a)"
      proof (intro allI impI)
        fix k assume "jj' - 1 \<le> k \<and> k < b"
        then have k: "jj' - 1 \<le> k" "k < b" by simp_all
        show "\<not> lt (d1 ! k) (d1 ! a)"
        proof (cases "k = jj' - 1")
          case True
          have "d1 ! (jj' - 1) = data ! i'" unfolding d1_def using len by (rule swap_nth_snd)
          then show ?thesis using True stop1 da by simp
        next
          case False
          have "jj' \<le> k" using k False by linarith
          then have "\<not> lt (data ! k) (data ! a)" using k by (intro right')
          moreover have "k \<noteq> i'" using \<open>jj' \<le> k\<close> lt' by linarith
          then have "d1 ! k = data ! k" unfolding d1_def using False by (intro swap_nth_other)
          ultimately show ?thesis using da by simp
        qed
      qed
    qed
    show ?thesis using ih unfolding da by simp
  qed
qed

lemma partitionCmpFunc_loop:
  assumes "a < b"
  shows "fst (partitionCmpFunc lt data0 a b pivot) = fst (partitionLoop lt (swap data0 a pivot) a (a + 1) b) \<and>
     fst (snd (partitionCmpFunc lt data0 a b pivot)) = snd (partitionLoop lt (swap data0 a pivot) a (a + 1) b)"
proof -
  define data where "data = swap data0 a pivot"
  define i where "i = scanUp (\<lambda>x. lt x (data ! a)) data (a + 1) b"
  define jj where "jj = scanDown (\<lambda>x. \<not> lt x (data ! a)) data i b"
  note unf = partitionCmpFunc_unfold [where lt = lt and ?data0.0 = data0 and a = a and b = b
      and pivot = pivot, OF data_def i_def jj_def]
  note unfl = partitionLoop_unfold [where lt = lt and data = data and a = a and i = "a + 1" and jj = b,
      OF i_def jj_def]
  show ?thesis unfolding data_def [symmetric] unf unfl by simp
qed

lemma partitionCmpFunc_post:
  assumes "partitionCmpFunc lt data0 a b pivot = (data', mid, ap)"
    and "a \<le> pivot" "pivot < b" "b \<le> length data0"
  shows "a \<le> mid \<and> mid < b \<and> data' ! mid = data0 ! pivot \<and>
   (\<forall>k. a \<le> k \<and> k < mid \<longrightarrow> lt (data' ! k) (data0 ! pivot)) \<and>
   (\<forall>k. mid < k \<and> k < b \<longrightarrow> \<not> lt (data' ! k) (data0 ! pivot))"
proof -
  define data where "data = swap data0 a pivot"
  have ab: "a < b" using assms by simp
  have eq: "partitionLoop lt data a (a + 1) b = (data', mid)"
    using partitionCmpFunc_loop [OF ab, of lt data0 pivot] assms(1)
    by (simp add: data_def prod_eq_iff)
  have da: "data ! a = data0 ! pivot"
    unfolding data_def using assms by (simp add: swap_nth)
  have "a \<le> mid \<and> mid < b \<and> data' ! mid = data ! a \<and>
   (\<forall>k. a \<le> k \<and> k < mid \<longrightarrow> lt (data' ! k) (data ! a)) \<and>
   (\<forall>k. mid < k \<and> k < b \<longrightarrow> \<not> lt (data' ! k) (data ! a))"
  proof (rule partitionLoop_post [OF eq])
    show "a < a + 1" by simp
    show "a + 1 \<le> b" using ab by simp
    show "b \<le> b" by simp
    show "b \<le> length data" using assms by (simp add: data_def)
    show "\<forall>k. a < k \<and> k < a + 1 \<longrightarrow> lt (data ! k) (data ! a)" by auto
    show "\<forall>k. b \<le> k \<and> k < b \<longrightarrow> \<not> lt (data ! k) (data ! a)" by auto
  qed
  then show ?thesis unfolding da by simp
qed

lemma partitionEqualLoop_post:
  "partitionEqualLoop lt data a i jj = (data', mid) \<Longrightarrow> a < i \<Longrightarrow> i \<le> jj \<Longrightarrow> jj \<le> b \<Longrightarrow> b \<le> length data \<Longrightarrow>
   \<forall>k. a < k \<and> k < i \<longrightarrow> \<not> lt (data ! a) (data ! k) \<Longrightarrow>
   \<forall>k. jj \<le> k \<and> k < b \<longrightarrow> lt (data ! a) (data ! k) \<Longrightarrow>
   i \<le> mid \<and> mid \<le> b \<and> data' ! a = data ! a \<and>
   (\<forall>k. a < k \<and> k < mid \<longrightarrow> \<not> lt (data ! a) (data' ! k)) \<and>
   (\<forall>k. mid \<le> k \<and> k < b \<longrightarrow> lt (data ! a) (data' ! k))"
proof (induction lt data a i jj arbitrary: data' mid rule: partitionEqualLoop.induct)
  case (1 lt data a i jj)
  define i' where "i' = scanUp (\<lambda>x. \<not> lt (data ! a) x) data i jj"
  define jj' where "jj' = scanDown (\<lambda>x. lt (data ! a) x) data i' jj"
  note unf = partitionEqualLoop_unfold [where lt = lt and data = data and a = a and i = i and jj = jj,
      OF i'_def jj'_def]
  note res = 1(2) and ai = 1(3) and ij = 1(4) and jb = 1(5) and bl = 1(6) and left = 1(7) and right = 1(8)
  have b1: "i \<le> i'" "i' \<le> jj" using ij by (simp_all add: i'_def scanUp_ge scanUp_le)
  have b2: "i' \<le> jj'" "jj' \<le> jj" using b1 by (simp_all add: jj'_def scanDown_ge scanDown_le)
  have left': "\<not> lt (data ! a) (data ! k)" if "a < k" "k < i'" for k
  proof (cases "k < i")
    case True
    then show ?thesis using left that by simp
  next
    case False
    then have "i \<le> k" by simp
    then show ?thesis
      using scanUp_all [of i k "\<lambda>x. \<not> lt (data ! a) x" data jj] that by (simp add: i'_def)
  qed
  have right': "lt (data ! a) (data ! k)" if "jj' \<le> k" "k < b" for k
  proof (cases "k < jj")
    case True
    then show ?thesis
      using scanDown_all [of "\<lambda>x. lt (data ! a) x" data i' jj k] that by (simp add: jj'_def)
  next
    case False
    then show ?thesis using right that by simp
  qed
  show ?case
  proof (cases "jj' \<le> i'")
    case True
    then have e: "jj' = i'" using b2 by simp
    have r: "data' = data" "mid = i'" using res True by (auto simp: unf)
    have m1: "i \<le> mid \<and> mid \<le> b" using r(2) b1 jb by linarith
    have m3: "\<not> lt (data ! a) (data' ! k)" if "a < k" "k < mid" for k
      using left' [of k] that r by simp
    have m4: "lt (data ! a) (data' ! k)" if "mid \<le> k" "k < b" for k
      using right' [of k] that r e by simp
    show ?thesis using m1 m3 m4 r(1) by blast
  next
    case False
    then have lt': "i' < jj'" by simp
    define d1 where "d1 = swap data i' (jj' - 1)"
    have eq: "partitionEqualLoop lt d1 a (i' + 1) (jj' - 1) = (data', mid)"
      using res False by (simp add: unf d1_def)
    have stop1: "lt (data ! a) (data ! i')"
      using scanUp_stop [of "\<lambda>x. \<not> lt (data ! a) x" data i jj] lt' b2 by (simp add: i'_def)
    have stop2: "\<not> lt (data ! a) (data ! (jj' - 1))"
      using scanDown_stop [of i' "\<lambda>x. lt (data ! a) x" data jj] lt' by (simp add: jj'_def)
    have ne: "i' \<noteq> jj' - 1" using stop1 stop2 by auto
    have len: "i' < length data" "jj' - 1 < length data" using lt' b2 jb bl by simp_all
    have da: "d1 ! a = data ! a"
    proof -
      have "a \<noteq> i'" "a \<noteq> jj' - 1" using ai b1 lt' by linarith+
      then show ?thesis unfolding d1_def by (intro swap_nth_other)
    qed
    have ih: "i' + 1 \<le> mid \<and> mid \<le> b \<and> data' ! a = d1 ! a \<and>
       (\<forall>k. a < k \<and> k < mid \<longrightarrow> \<not> lt (d1 ! a) (data' ! k)) \<and>
       (\<forall>k. mid \<le> k \<and> k < b \<longrightarrow> lt (d1 ! a) (data' ! k))"
    proof (rule 1(1) [OF i'_def jj'_def False, folded d1_def, OF eq])
      show "a < i' + 1" using ai b1 by simp
      show "i' + 1 \<le> jj' - 1" using lt' ne by linarith
      show "jj' - 1 \<le> b" using b2 jb by linarith
      show "b \<le> length d1" using bl by (simp add: d1_def)
      show "\<forall>k. a < k \<and> k < i' + 1 \<longrightarrow> \<not> lt (d1 ! a) (d1 ! k)"
      proof (intro allI impI)
        fix k assume "a < k \<and> k < i' + 1"
        then have k: "a < k" "k < i' + 1" by simp_all
        show "\<not> lt (d1 ! a) (d1 ! k)"
        proof (cases "k = i'")
          case True
          have "d1 ! i' = data ! (jj' - 1)" unfolding d1_def using len by (rule swap_nth_fst)
          then show ?thesis using True stop2 da by simp
        next
          case False
          have "k < i'" using k False by linarith
          then have "\<not> lt (data ! a) (data ! k)" using k by (intro left')
          moreover have "k \<noteq> jj' - 1" using \<open>k < i'\<close> lt' by linarith
          then have "d1 ! k = data ! k" unfolding d1_def using False by (intro swap_nth_other)
          ultimately show ?thesis using da by simp
        qed
      qed
      show "\<forall>k. jj' - 1 \<le> k \<and> k < b \<longrightarrow> lt (d1 ! a) (d1 ! k)"
      proof (intro allI impI)
        fix k assume "jj' - 1 \<le> k \<and> k < b"
        then have k: "jj' - 1 \<le> k" "k < b" by simp_all
        show "lt (d1 ! a) (d1 ! k)"
        proof (cases "k = jj' - 1")
          case True
          have "d1 ! (jj' - 1) = data ! i'" unfolding d1_def using len by (rule swap_nth_snd)
          then show ?thesis using True stop1 da by simp
        next
          case False
          have "jj' \<le> k" using k False by linarith
          then have "lt (data ! a) (data ! k)" using k by (intro right')
          moreover have "k \<noteq> i'" using \<open>jj' \<le> k\<close> lt' by linarith
          then have "d1 ! k = data ! k" unfolding d1_def using False by (intro swap_nth_other)
          ultimately show ?thesis using da by simp
        qed
      qed
    qed
    have "i \<le> mid" using ih b1 by linarith
    then show ?thesis using ih unfolding da by simp
  qed
qed

lemma partitionEqualCmpFunc_post:
  assumes "partitionEqualCmpFunc lt data0 a b pivot = (data', mid)"
    and "a \<le> pivot" "pivot < b" "b \<le> length data0"
  shows "a < mid \<and> mid \<le> b \<and> data' ! a = data0 ! pivot \<and>
   (\<forall>k. a < k \<and> k < mid \<longrightarrow> \<not> lt (data0 ! pivot) (data' ! k)) \<and>
   (\<forall>k. mid \<le> k \<and> k < b \<longrightarrow> lt (data0 ! pivot) (data' ! k))"
proof -
  define data where "data = swap data0 a pivot"
  have ab: "a < b" using assms by simp
  have eq: "partitionEqualLoop lt data a (a + 1) b = (data', mid)"
    using assms(1) by (simp add: data_def partitionEqualCmpFunc_def)
  have da: "data ! a = data0 ! pivot"
    unfolding data_def using assms by (intro swap_nth_fst) simp_all
  have "a + 1 \<le> mid \<and> mid \<le> b \<and> data' ! a = data ! a \<and>
   (\<forall>k. a < k \<and> k < mid \<longrightarrow> \<not> lt (data ! a) (data' ! k)) \<and>
   (\<forall>k. mid \<le> k \<and> k < b \<longrightarrow> lt (data ! a) (data' ! k))"
  proof (rule partitionEqualLoop_post [OF eq])
    show "a < a + 1" by simp
    show "a + 1 \<le> b" using ab by simp
    show "b \<le> b" by simp
    show "b \<le> length data" using assms by (simp add: data_def)
    show "\<forall>k. a < k \<and> k < a + 1 \<longrightarrow> \<not> lt (data ! a) (data ! k)" by auto
    show "\<forall>k. b \<le> k \<and> k < b \<longrightarrow> lt (data ! a) (data ! k)" by auto
  qed
  then show ?thesis unfolding da by simp
qed

subsection \<open>The heap sort\<close>

lemma heapAtI:
  "(\<And>c. c = 2 * j + 1 \<or> c = 2 * j + 2 \<Longrightarrow> c < hi \<Longrightarrow> key (data ! (first + c)) \<le> key (data ! (first + j)))
   \<Longrightarrow> heapAt key data first hi j"
  by (simp add: heapAt_def)

lemma heapAtD:
  "heapAt key data first hi j \<Longrightarrow> c = 2 * j + 1 \<or> c = 2 * j + 2 \<Longrightarrow> c < hi \<Longrightarrow>
   key (data ! (first + c)) \<le> key (data ! (first + j))"
  by (simp add: heapAt_def)

lemma siftDown_heap:
  "agree lt key data \<Longrightarrow> first + hi \<le> length data \<Longrightarrow> lo \<le> root \<Longrightarrow>
   (\<And>j. lo \<le> j \<Longrightarrow> j < hi \<Longrightarrow> j \<noteq> root \<Longrightarrow> heapAt key data first hi j) \<Longrightarrow>
   (\<And>p c. lo \<le> p \<Longrightarrow> root = 2 * p + 1 \<or> root = 2 * p + 2 \<Longrightarrow> c = 2 * root + 1 \<or> c = 2 * root + 2 \<Longrightarrow>
      c < hi \<Longrightarrow> key (data ! (first + c)) \<le> key (data ! (first + p))) \<Longrightarrow>
   lo \<le> j \<Longrightarrow> j < hi \<Longrightarrow> heapAt key (siftDownCmpFunc lt data root hi first) first hi j"
proof (induction lt data root hi first arbitrary: j rule: siftDownCmpFunc.induct)
  case (1 lt data root hi first)
  define child where "child = 2 * root + 1"
  define child' where "child' = (if child + 1 < hi \<and> lt (data ! (first + child)) (data ! (first + child + 1))
                      then child + 1 else child)"
  note unf = siftDown_unfold [where lt = lt and data = data and root = root and hi = hi and first = first,
      OF child_def child'_def]
  note ag = 1(2) and len = 1(3) and lo = 1(4) and heap = 1(5) and par = 1(6) and lj = 1(7) and jh = 1(8)
  have ltk: "lt (data ! (first + x)) (data ! (first + y)) = (key (data ! (first + x)) < key (data ! (first + y)))"
    if "x < hi" "y < hi" for x y
    using that len by (intro agree_nth [OF ag]) simp_all
  show ?case
  proof (cases "hi \<le> child")
    case True
    have r: "siftDownCmpFunc lt data root hi first = data" using True by (simp add: unf)
    have "heapAt key data first hi j"
    proof (cases "j = root")
      case True
      show ?thesis
      proof (rule heapAtI)
        fix c assume "c = 2 * j + 1 \<or> c = 2 * j + 2" "c < hi"
        then have False using \<open>hi \<le> child\<close> True by (auto simp: child_def)
        then show "key (data ! (first + c)) \<le> key (data ! (first + j))" ..
      qed
    next
      case False
      then show ?thesis using heap lj jh by simp
    qed
    then show ?thesis unfolding r .
  next
    case False
    have c': "child' < hi" "root < child'" "child' = child \<or> child' = child + 1"
      using False by (auto simp: child'_def child_def)
    have rh: "root < hi" using c' by simp
    have big: "key (data ! (first + c)) \<le> key (data ! (first + child'))"
      if "c = 2 * root + 1 \<or> c = 2 * root + 2" "c < hi" for c
    proof (cases "child + 1 < hi \<and> lt (data ! (first + child)) (data ! (first + child + 1))")
      case True
      then have e: "child' = child + 1" by (simp add: child'_def)
      have "key (data ! (first + child)) < key (data ! (first + (child + 1)))"
        using True ltk [of child "child + 1"] by (simp add: add.assoc)
      moreover have "c = child \<or> c = child + 1" using that by (auto simp: child_def)
      ultimately show ?thesis unfolding e by auto
    next
      case nb: False
      then have e: "child' = child" by (simp add: child'_def)
      show ?thesis
      proof (cases "c = child")
        case True
        then show ?thesis unfolding e by simp
      next
        case False
        then have c1: "c = child + 1" using that by (auto simp: child_def)
        then have "\<not> lt (data ! (first + child)) (data ! (first + (child + 1)))"
          using nb that by (simp add: add.assoc)
        then have "key (data ! (first + (child + 1))) \<le> key (data ! (first + child))"
          using ltk [of child "child + 1"] that c1 by simp
        then show ?thesis unfolding e c1 .
      qed
    qed
    show ?thesis
    proof (cases "lt (data ! (first + root)) (data ! (first + child'))")
      case nlt: False
      have r: "siftDownCmpFunc lt data root hi first = data" using False nlt by (simp add: unf)
      have top: "key (data ! (first + child')) \<le> key (data ! (first + root))"
        using nlt ltk [of root child'] c' rh by simp
      have hr: "heapAt key data first hi root"
      proof (rule heapAtI)
        fix c assume "c = 2 * root + 1 \<or> c = 2 * root + 2" "c < hi"
        then have "key (data ! (first + c)) \<le> key (data ! (first + child'))" by (rule big)
        then show "key (data ! (first + c)) \<le> key (data ! (first + root))" using top by (rule order_trans)
      qed
      have "heapAt key data first hi j" using hr heap lj jh by (cases "j = root") simp_all
      then show ?thesis unfolding r .
    next
      case lt: True
      define d1 where "d1 = swap data (first + root) (first + child')"
      have r: "siftDownCmpFunc lt data root hi first = siftDownCmpFunc lt d1 child' hi first"
        using False lt by (simp add: unf d1_def)
      have kl: "key (data ! (first + root)) < key (data ! (first + child'))"
        using lt ltk [of root child'] c' rh by simp
      have inb: "first + root < length data" "first + child' < length data" using rh c' len by simp_all
      have n1: "d1 ! (first + root) = data ! (first + child')"
        unfolding d1_def using inb by (rule swap_nth_fst)
      have n2: "d1 ! (first + child') = data ! (first + root)"
        unfolding d1_def using inb by (rule swap_nth_snd)
      have n3: "d1 ! (first + k) = data ! (first + k)" if "k \<noteq> root" "k \<noteq> child'" for k
        unfolding d1_def using that by (intro swap_nth_other) simp_all
      have f1: "framed first (first + hi) data d1"
        unfolding d1_def using c' rh len by (intro framed_swap) simp_all
      have ag1: "agree lt key d1" using f1 ag by (rule framed_agree)
      have len1: "first + hi \<le> length d1" using len by (simp add: d1_def)
      have cr: "child' = 2 * root + 1 \<or> child' = 2 * root + 2" using c'(3) by (auto simp: child_def)
      have heap1: "heapAt key d1 first hi j'" if "lo \<le> j'" "j' < hi" "j' \<noteq> child'" for j'
      proof (rule heapAtI)
        fix c assume c: "c = 2 * j' + 1 \<or> c = 2 * j' + 2" and ch: "c < hi"
        show "key (d1 ! (first + c)) \<le> key (d1 ! (first + j'))"
        proof (cases "j' = root")
          case True
          have cne: "c \<noteq> root" using c True by auto
          show ?thesis
          proof (cases "c = child'")
            case True
            then show ?thesis using n1 n2 kl \<open>j' = root\<close> by simp
          next
            case False
            have "key (data ! (first + c)) \<le> key (data ! (first + child'))"
              using c ch \<open>j' = root\<close> by (intro big) simp_all
            then show ?thesis using n1 n3 [OF cne False] \<open>j' = root\<close> by simp
          qed
        next
          case False
          have jn: "d1 ! (first + j') = data ! (first + j')" using False that by (intro n3)
          have cne: "c \<noteq> child'" using c cr False by presburger
          show ?thesis
          proof (cases "c = root")
            case True
            have "key (data ! (first + child')) \<le> key (data ! (first + j'))"
              using that(1) c True cr c'(1) by (intro par) simp_all
            then show ?thesis using n1 jn True by simp
          next
            case cr': False
            have "key (data ! (first + c)) \<le> key (data ! (first + j'))"
              using heap [OF that(1,2) False] c ch by (rule heapAtD)
            then show ?thesis using n3 [OF cr' cne] jn by simp
          qed
        qed
      qed
      have par1: "key (d1 ! (first + c)) \<le> key (d1 ! (first + p))"
        if "lo \<le> p" "child' = 2 * p + 1 \<or> child' = 2 * p + 2" "c = 2 * child' + 1 \<or> c = 2 * child' + 2" "c < hi"
        for p c
      proof -
        have p: "p = root" using that(2) cr by presburger
        have cne: "c \<noteq> root" "c \<noteq> child'" using that(3) c'(2) by auto
        have "lo \<le> child'" "child' \<noteq> root" using lo c'(2) by simp_all
        then have "heapAt key data first hi child'" using c'(1) by (intro heap)
        then have "key (data ! (first + c)) \<le> key (data ! (first + child'))"
          using that(3,4) by (rule heapAtD)
        then show ?thesis using n1 n3 [OF cne] p by simp
      qed
      have lo1: "lo \<le> child'" using lo c'(2) by simp
      have "heapAt key (siftDownCmpFunc lt d1 child' hi first) first hi j"
        by (rule 1(1) [OF child_def False child'_def _ ag1 [unfolded d1_def] len1 [unfolded d1_def] lo1
              heap1 [unfolded d1_def] par1 [unfolded d1_def] lj jh, folded d1_def])
          (use lt in simp_all)
      then show ?thesis unfolding r .
    qed
  qed
qed

lemma heap_max:
  "(\<And>j. j < hi \<Longrightarrow> heapAt key data first hi j) \<Longrightarrow> k < hi \<Longrightarrow>
   key (data ! (first + k)) \<le> key (data ! first)"
proof (induction k rule: less_induct)
  case (less k)
  show ?case
  proof (cases "k = 0")
    case True
    then show ?thesis by simp
  next
    case False
    define p where "p = (k - 1) div 2"
    have pk: "p < k" using False by (simp add: p_def)
    have ch: "k = 2 * p + 1 \<or> k = 2 * p + 2" using False unfolding p_def by presburger
    have ph: "p < hi" using pk less.prems(2) by simp
    have "key (data ! (first + k)) \<le> key (data ! (first + p))"
      using less.prems(1) [OF ph] ch less.prems(2) by (rule heapAtD)
    moreover have "key (data ! (first + p)) \<le> key (data ! first)"
      using pk less.prems(1) ph by (rule less.IH)
    ultimately show ?thesis by (rule order_trans)
  qed
qed

lemma heapBuild_heap:
  "agree lt key data \<Longrightarrow> first + hi \<le> length data \<Longrightarrow>
   (\<And>j. i < j \<Longrightarrow> j < hi \<Longrightarrow> heapAt key data first hi j) \<Longrightarrow>
   j < hi \<Longrightarrow> heapAt key (heapBuild lt data i hi first) first hi j"
proof (induction i arbitrary: data j)
  case 0
  have "heapAt key (siftDownCmpFunc lt data 0 hi first) first hi j"
  proof (rule siftDown_heap [OF 0(1,2), of 0])
    show "(0::nat) \<le> 0" by simp
    show "heapAt key data first hi j'" if "0 \<le> j'" "j' < hi" "j' \<noteq> 0" for j'
      using that by (intro 0(3)) simp_all
    show "key (data ! (first + c)) \<le> key (data ! (first + p))"
      if "0 = 2 * p + 1 \<or> 0 = 2 * p + 2" for p c
      using that by simp
    show "0 \<le> j" by simp
    show "j < hi" by (rule 0(4))
  qed
  then show ?case by simp
next
  case (Suc i)
  define d1 where "d1 = siftDownCmpFunc lt data (Suc i) hi first"
  have f: "framed first (first + hi) data d1" unfolding d1_def using Suc.prems(2) by (rule siftDown_framed)
  have h1: "heapAt key d1 first hi j'" if "i < j'" "j' < hi" for j'
    unfolding d1_def
  proof (rule siftDown_heap [OF Suc.prems(1,2), of "Suc i"])
    show "Suc i \<le> Suc i" by simp
    show "heapAt key data first hi j''" if "Suc i \<le> j''" "j'' < hi" "j'' \<noteq> Suc i" for j''
      using that by (intro Suc.prems(3)) simp_all
    show "key (data ! (first + c)) \<le> key (data ! (first + p))"
      if "Suc i \<le> p" "Suc i = 2 * p + 1 \<or> Suc i = 2 * p + 2" for p c
    proof -
      have False using that by linarith
      then show ?thesis ..
    qed
    show "Suc i \<le> j'" using that by simp
    show "j' < hi" using that by simp
  qed
  have "heapAt key (heapBuild lt d1 i hi first) first hi j"
  proof (rule Suc.IH)
    show "agree lt key d1" using f Suc.prems(1) by (rule framed_agree)
    show "first + hi \<le> length d1" using f Suc.prems(2) by (simp add: framed_length)
    show "\<And>j. i < j \<Longrightarrow> j < hi \<Longrightarrow> heapAt key d1 first hi j" by (rule h1)
    show "j < hi" by (rule Suc.prems(4))
  qed
  then show ?case by (simp add: d1_def)
qed

lemma sortedRange_front:
  assumes "sortedRange key d (Suc s) e" "\<And>j. s < j \<Longrightarrow> j < e \<Longrightarrow> key (d ! s) \<le> key (d ! j)"
  shows "sortedRange key d s e"
  unfolding sortedRange_def
proof (intro allI impI)
  fix p q assume "s \<le> p \<and> p \<le> q \<and> q < e"
  then have h: "s \<le> p" "p \<le> q" "q < e" by simp_all
  show "key (d ! p) \<le> key (d ! q)"
  proof (cases "p = s")
    case True
    show ?thesis
    proof (cases "q = s")
      case True
      then show ?thesis using \<open>p = s\<close> by simp
    next
      case False
      then have "s < q" using h True by simp
      then show ?thesis using assms(2) [of q] h True by simp
    qed
  next
    case False
    then have "Suc s \<le> p" using h by simp
    then show ?thesis using assms(1) h by (simp add: sortedRange_def)
  qed
qed

lemma sortedRange_framed_above:
  assumes "sortedRange key d s e" "framed lo b d d'" "b \<le> s" "e \<le> length d"
  shows "sortedRange key d' s e"
  unfolding sortedRange_def
proof (intro allI impI)
  fix p q assume "s \<le> p \<and> p \<le> q \<and> q < e"
  then have h: "s \<le> p" "p \<le> q" "q < e" by simp_all
  have "d' ! p = d ! p" using h assms(3,4) by (intro framed_outside [OF assms(2)]) simp_all
  moreover have "d' ! q = d ! q" using h assms(3,4) by (intro framed_outside [OF assms(2)]) simp_all
  moreover have "key (d ! p) \<le> key (d ! q)" using assms(1) h by (simp add: sortedRange_def)
  ultimately show "key (d' ! p) \<le> key (d' ! q)" by simp
qed

lemma heapPop_sorted:
  "agree lt key data \<Longrightarrow> first + hi \<le> length data \<Longrightarrow> i < hi \<Longrightarrow>
   (\<And>j. j < Suc i \<Longrightarrow> heapAt key data first (Suc i) j) \<Longrightarrow>
   sortedRange key data (first + Suc i) (first + hi) \<Longrightarrow>
   (\<And>k j. k < Suc i \<Longrightarrow> Suc i \<le> j \<Longrightarrow> j < hi \<Longrightarrow> key (data ! (first + k)) \<le> key (data ! (first + j))) \<Longrightarrow>
   sortedRange key (heapPop lt data i first) first (first + hi)"
proof (induction i arbitrary: data)
  case 0
  have "siftDownCmpFunc lt (swap data first first) 0 0 first = swap data first first"
    by (subst siftDownCmpFunc.simps) simp
  moreover have "swap data first first = data" by (simp add: swap_def)
  ultimately have r: "heapPop lt data 0 first = data" by simp
  have "sortedRange key data first (first + hi)"
  proof (rule sortedRange_front)
    show "sortedRange key data (Suc first) (first + hi)" using 0(5) by simp
    show "key (data ! first) \<le> key (data ! j)" if "first < j" "j < first + hi" for j
    proof -
      have "key (data ! (first + 0)) \<le> key (data ! (first + (j - first)))"
        using that by (intro 0(6)) simp_all
      then show ?thesis using that by simp
    qed
  qed
  then show ?case unfolding r .
next
  case (Suc i)
  note ag = Suc.prems(1) and len = Suc.prems(2) and ih = Suc.prems(3) and H = Suc.prems(4)
    and S = Suc.prems(5) and B = Suc.prems(6)
  define s1 where "s1 = swap data first (first + Suc i)"
  define d2 where "d2 = siftDownCmpFunc lt s1 0 (Suc i) first"
  have r: "heapPop lt data (Suc i) first = heapPop lt d2 i first" by (simp add: s1_def d2_def)
  have inb: "first < length data" "first + Suc i < length data" using ih len by simp_all
  have mx: "key (data ! (first + k)) \<le> key (data ! first)" if "k < Suc (Suc i)" for k
    using H that by (rule heap_max)
  have n1: "s1 ! first = data ! (first + Suc i)" unfolding s1_def using inb by (rule swap_nth_fst)
  have n2: "s1 ! (first + Suc i) = data ! first" unfolding s1_def using inb by (rule swap_nth_snd)
  have n3: "s1 ! (first + k) = data ! (first + k)" if "k \<noteq> 0" "k \<noteq> Suc i" for k
    unfolding s1_def using that by (intro swap_nth_other) simp_all
  have f1: "framed first (first + Suc (Suc i)) data s1"
    unfolding s1_def using inb by (intro framed_swap) simp_all
  have len1: "length s1 = length data" by (simp add: s1_def)
  have ag1: "agree lt key s1" using f1 ag by (rule framed_agree)
  have f2: "framed first (first + Suc i) s1 d2"
    unfolding d2_def using inb len1 by (intro siftDown_framed) simp
  have len2: "length d2 = length data" using framed_length [OF f2] len1 by simp
  have ag2: "agree lt key d2" using f2 ag1 by (rule framed_agree)
  have H2: "heapAt key d2 first (Suc i) j" if "j < Suc i" for j
    unfolding d2_def
  proof (rule siftDown_heap [OF ag1, of first "Suc i" 0 0])
    show "first + Suc i \<le> length s1" using inb len1 by simp
    show "(0::nat) \<le> 0" by simp
    show "heapAt key s1 first (Suc i) j'" if j': "0 \<le> j'" "j' < Suc i" "j' \<noteq> 0" for j'
    proof (rule heapAtI)
      fix c assume c: "c = 2 * j' + 1 \<or> c = 2 * j' + 2" "c < Suc i"
      have "heapAt key data first (Suc (Suc i)) j'" using j' by (intro H) simp
      then have "key (data ! (first + c)) \<le> key (data ! (first + j'))"
        using c by (intro heapAtD [of key data first "Suc (Suc i)" j' c]) simp_all
      moreover have "s1 ! (first + c) = data ! (first + c)" using c by (intro n3) auto
      moreover have "s1 ! (first + j') = data ! (first + j')" using j' by (intro n3) auto
      ultimately show "key (s1 ! (first + c)) \<le> key (s1 ! (first + j'))" by simp
    qed
    show "key (s1 ! (first + c)) \<le> key (s1 ! (first + p))"
      if "0 = 2 * p + 1 \<or> 0 = 2 * p + 2" for p c
      using that by simp
    show "0 \<le> j" by simp
    show "j < Suc i" by (rule that)
  qed
  have S1: "sortedRange key s1 (first + Suc i) (first + hi)"
  proof (rule sortedRange_front)
    show "sortedRange key s1 (Suc (first + Suc i)) (first + hi)"
      unfolding sortedRange_def
    proof (intro allI impI)
      fix p q assume "Suc (first + Suc i) \<le> p \<and> p \<le> q \<and> q < first + hi"
      then have h: "Suc (first + Suc i) \<le> p" "p \<le> q" "q < first + hi" by simp_all
      have "s1 ! p = data ! p" unfolding s1_def using h by (intro swap_nth_other) simp_all
      moreover have "s1 ! q = data ! q" unfolding s1_def using h by (intro swap_nth_other) simp_all
      moreover have "key (data ! p) \<le> key (data ! q)" using S h by (simp add: sortedRange_def)
      ultimately show "key (s1 ! p) \<le> key (s1 ! q)" by simp
    qed
    show "key (s1 ! (first + Suc i)) \<le> key (s1 ! j)" if "first + Suc i < j" "j < first + hi" for j
    proof -
      have "key (data ! (first + 0)) \<le> key (data ! (first + (j - first)))"
        using that by (intro B) simp_all
      moreover have "s1 ! j = data ! j" unfolding s1_def using that by (intro swap_nth_other) simp_all
      ultimately show ?thesis using n2 that by simp
    qed
  qed
  have S2: "sortedRange key d2 (first + Suc i) (first + hi)"
    using S1 f2 by (rule sortedRange_framed_above) (use len len1 in simp_all)
  have B1: "key (s1 ! (first + k)) \<le> key (s1 ! (first + j))" if "k < Suc i" "Suc i \<le> j" "j < hi" for k j
  proof -
    obtain k' where k': "k' < Suc (Suc i)" "s1 ! (first + k) = data ! (first + k')"
    proof (cases "k = 0")
      case True
      then have "s1 ! (first + k) = data ! (first + Suc i)" using n1 by simp
      then show ?thesis using that by (intro that [of "Suc i"]) simp_all
    next
      case False
      then have "s1 ! (first + k) = data ! (first + k)" using \<open>k < Suc i\<close> by (intro n3) simp_all
      then show ?thesis using \<open>k < Suc i\<close> by (intro that [of k]) simp_all
    qed
    show ?thesis
    proof (cases "j = Suc i")
      case True
      then show ?thesis using n2 k' mx [of k'] by simp
    next
      case False
      then have "s1 ! (first + j) = data ! (first + j)" using that by (intro n3) simp_all
      moreover have "key (data ! (first + k')) \<le> key (data ! (first + j))"
        using k' that False by (intro B) simp_all
      ultimately show ?thesis using k' by simp
    qed
  qed
  have B2: "key (d2 ! (first + k)) \<le> key (d2 ! (first + j))" if "k < Suc i" "Suc i \<le> j" "j < hi" for k j
  proof -
    have e: "d2 ! (first + j) = s1 ! (first + j)"
      using that len len1 by (intro framed_outside [OF f2]) simp_all
    have "key (d2 ! (first + k)) \<le> key (s1 ! (first + j))"
    proof (rule framed_range_all [OF f2, where P = "\<lambda>x. key x \<le> key (s1 ! (first + j))"])
      show "first \<le> first + Suc i" by simp
      show "first + Suc i \<le> length s1" using inb len1 by simp
      show "\<forall>m. first \<le> m \<and> m < first + Suc i \<longrightarrow> key (s1 ! m) \<le> key (s1 ! (first + j))"
      proof (intro allI impI)
        fix m assume "first \<le> m \<and> m < first + Suc i"
        then have "m - first < Suc i" "m = first + (m - first)" by linarith+
        then show "key (s1 ! m) \<le> key (s1 ! (first + j))"
          using B1 [of "m - first" j] that by simp
      qed
      show "first \<le> first + k" by simp
      show "first + k < first + Suc i" using that by simp
    qed
    then show ?thesis unfolding e .
  qed
  have "sortedRange key (heapPop lt d2 i first) first (first + hi)"
  proof (rule Suc.IH [OF ag2])
    show "first + hi \<le> length d2" using len len2 by simp
    show "i < hi" using ih by simp
    show "\<And>j. j < Suc i \<Longrightarrow> heapAt key d2 first (Suc i) j" by (rule H2)
    show "sortedRange key d2 (first + Suc i) (first + hi)" by (rule S2)
    show "\<And>k j. k < Suc i \<Longrightarrow> Suc i \<le> j \<Longrightarrow> j < hi \<Longrightarrow> key (d2 ! (first + k)) \<le> key (d2 ! (first + j))"
      by (rule B2)
  qed
  then show ?case unfolding r .
qed

lemma heapSortCmpFunc_sorted:
  assumes "agree lt key data" "a \<le> b" "b \<le> length data"
  shows "sortedRange key (heapSortCmpFunc lt data a b) a b"
proof (cases "b - a = 0")
  case True
  then have "b \<le> Suc a" by simp
  then show ?thesis by (rule sortedRange_single)
next
  case False
  define hi where "hi = b - a"
  define d1 where "d1 = heapBuild lt data ((hi - 1) div 2) hi a"
  have r: "heapSortCmpFunc lt data a b = heapPop lt d1 (hi - 1) a"
    using False by (simp add: heapSortCmpFunc_def Let_def hi_def d1_def)
  have len: "a + hi \<le> length data" using assms by (simp add: hi_def)
  have f1: "framed a (a + hi) data d1" unfolding d1_def using len by (rule heapBuild_framed)
  have H: "heapAt key d1 a hi j" if "j < hi" for j
    unfolding d1_def
  proof (rule heapBuild_heap [OF assms(1) len _ that])
    fix j' assume j': "(hi - 1) div 2 < j'" "j' < hi"
    show "heapAt key data a hi j'"
    proof (rule heapAtI)
      fix c assume "c = 2 * j' + 1 \<or> c = 2 * j' + 2" "c < hi"
      moreover have "hi - 1 < j' * 2" using j'(1) by (simp add: div_less_iff_less_mult)
      ultimately have False by linarith
      then show "key (data ! (a + c)) \<le> key (data ! (a + j'))" ..
    qed
  qed
  have hp: "0 < hi" using False by (simp add: hi_def)
  have "sortedRange key (heapPop lt d1 (hi - 1) a) a (a + hi)"
  proof (rule heapPop_sorted)
    show "agree lt key d1" using f1 assms(1) by (rule framed_agree)
    show "a + hi \<le> length d1" using len framed_length [OF f1] by simp
    show "hi - 1 < hi" using hp by simp
    show "heapAt key d1 a (Suc (hi - 1)) j" if "j < Suc (hi - 1)" for j
      using H [of j] that hp by simp
    show "sortedRange key d1 (a + Suc (hi - 1)) (a + hi)"
      by (rule sortedRange_single) (use hp in simp)
    show "key (d1 ! (a + k)) \<le> key (d1 ! (a + j))" if "Suc (hi - 1) \<le> j" "j < hi" for k j
    proof -
      have False using that by linarith
      then show ?thesis ..
    qed
  qed
  moreover have "a + hi = b" using assms by (simp add: hi_def)
  ultimately show ?thesis unfolding r by simp
qed

subsection \<open>The quicksort\<close>

lemma pdqsortCmpFunc_small:
  "b - a \<le> 12 \<Longrightarrow> pdqsortCmpFunc lt data a b limit wb wp = insertionSortCmpFunc lt data a b"
  by (subst pdqsortCmpFunc.simps) simp

lemma pdqsortCmpFunc_heap:
  "\<not> b - a \<le> 12 \<Longrightarrow> pdqsortCmpFunc lt data a b 0 wb wp = heapSortCmpFunc lt data a b"
  by (subst pdqsortCmpFunc.simps) simp

lemma pdqsortCmpFunc_unfold:
  assumes "\<not> b - a \<le> 12" "limit \<noteq> 0"
    and "data1 = (if \<not> wb then breakPatternsCmpFunc data a b else data)"
    and "limit1 = (if \<not> wb then limit - 1 else limit)"
    and "pivot0 = fst (choosePivotCmpFunc lt data1 a b)"
    and "hint0 = snd (choosePivotCmpFunc lt data1 a b)"
    and "data2 = (if hint0 = decreasingHint then reverseRangeCmpFunc data1 a b else data1)"
    and "pivot = (if hint0 = decreasingHint then (b - 1) - (pivot0 - a) else pivot0)"
    and "hint = (if hint0 = decreasingHint then increasingHint else hint0)"
    and "ps = (if wb \<and> wp \<and> hint = increasingHint
               then partialInsertionSortCmpFunc lt data2 a b else (data2, False))"
    and "pe = partitionEqualCmpFunc lt (fst ps) a b pivot"
    and "pp = partitionCmpFunc lt (fst ps) a b pivot"
    and "mid = fst (snd pp)"
  shows "pdqsortCmpFunc lt data a b limit wb wp =
     (if snd ps then fst ps
      else if 0 < a \<and> \<not> lt (fst ps ! (a - 1)) (fst ps ! pivot)
      then pdqsortCmpFunc lt (fst pe) (snd pe) b limit1 wb wp
      else if mid - a < b - mid
      then pdqsortCmpFunc lt (pdqsortCmpFunc lt (fst pp) a mid limit1 True True)
             (mid + 1) b limit1 ((b - a) div 8 \<le> mid - a) (snd (snd pp))
      else pdqsortCmpFunc lt (pdqsortCmpFunc lt (fst pp) (mid + 1) b limit1 True True)
             a mid limit1 ((b - a) div 8 \<le> b - mid) (snd (snd pp)))"
  apply (subst pdqsortCmpFunc.simps)
  apply (simp only: assms(1,2) if_False)
  apply (simp only: assms(3-) split_beta fst_conv snd_conv if_distrib [of fst] if_distrib [of snd] if_distrib [of "\<lambda>x. fst (snd x)"] if_distrib [of "\<lambda>x. snd (snd x)"])
  done

lemma sortedRange_pivot:
  assumes "sortedRange key d a mid" "sortedRange key d (Suc mid) b"
    and "\<And>p. a \<le> p \<Longrightarrow> p < mid \<Longrightarrow> key (d ! p) \<le> key (d ! mid)"
    and "\<And>q. mid < q \<Longrightarrow> q < b \<Longrightarrow> key (d ! mid) \<le> key (d ! q)"
  shows "sortedRange key d a b"
  unfolding sortedRange_def
proof (intro allI impI)
  fix p q assume "a \<le> p \<and> p \<le> q \<and> q < b"
  then have h: "a \<le> p" "p \<le> q" "q < b" by simp_all
  consider "q < mid" | "mid < p" | "p = mid" "q = mid" | "p < mid" "q = mid" | "p = mid" "mid < q"
    | "p < mid" "mid < q"
    using h by linarith
  then show "key (d ! p) \<le> key (d ! q)"
  proof cases
    case 1
    then show ?thesis using assms(1) h by (simp add: sortedRange_def)
  next
    case 2
    then show ?thesis using assms(2) h by (simp add: sortedRange_def)
  next
    case 3
    then show ?thesis by simp
  next
    case 4
    then show ?thesis using assms(3) [of p] h by simp
  next
    case 5
    then show ?thesis using assms(4) [of q] h by simp
  next
    case 6
    have "key (d ! p) \<le> key (d ! mid)" using 6 h by (intro assms(3))
    moreover have "key (d ! mid) \<le> key (d ! q)" using 6 h by (intro assms(4))
    ultimately show ?thesis by (rule order_trans)
  qed
qed

lemma sortedRange_join:
  assumes "sortedRange key d a m" "sortedRange key d m b"
    and "\<And>p q. a \<le> p \<Longrightarrow> p < m \<Longrightarrow> m \<le> q \<Longrightarrow> q < b \<Longrightarrow> key (d ! p) \<le> key (d ! q)"
  shows "sortedRange key d a b"
  unfolding sortedRange_def
proof (intro allI impI)
  fix p q assume "a \<le> p \<and> p \<le> q \<and> q < b"
  then have h: "a \<le> p" "p \<le> q" "q < b" by simp_all
  consider "q < m" | "m \<le> p" | "p < m" "m \<le> q" using h by linarith
  then show "key (d ! p) \<le> key (d ! q)"
  proof cases
    case 1
    then show ?thesis using assms(1) h by (simp add: sortedRange_def)
  next
    case 2
    then show ?thesis using assms(2) h by (simp add: sortedRange_def)
  next
    case 3
    then show ?thesis using h by (intro assms(3))
  qed
qed

lemma partition_keys:
  assumes ag: "agree lt key d3" and bounds: "a \<le> pivot" "pivot < b" "b \<le> length d3"
    and pp: "partitionCmpFunc lt d3 a b pivot = (d4, mid, ap)"
  shows "a \<le> mid \<and> mid < b \<and> framed a b d3 d4 \<and>
    (\<forall>k. a \<le> k \<and> k < mid \<longrightarrow> key (d4 ! k) \<le> key (d4 ! mid)) \<and>
    (\<forall>k. Suc mid \<le> k \<and> k < b \<longrightarrow> key (d4 ! mid) \<le> key (d4 ! k))"
proof -
  note post = partitionCmpFunc_post [OF pp bounds]
  have f: "framed a b d3 d4"
    using partitionCmpFunc_framed [OF bounds, of lt] pp by simp
  have ag4: "agree lt key d4" using f ag by (rule framed_agree)
  have len4: "length d4 = length d3" using f by (rule framed_length)
  have m: "a \<le> mid" "mid < b" "d4 ! mid = d3 ! pivot" using post by simp_all
  have ltk: "lt (d4 ! x) (d4 ! mid) = (key (d4 ! x) < key (d4 ! mid))" if "x < b" for x
    using that m bounds len4 by (intro agree_nth [OF ag4]) simp_all
  have L: "key (d4 ! k) \<le> key (d4 ! mid)" if "a \<le> k" "k < mid" for k
  proof -
    have "lt (d4 ! k) (d4 ! mid)" using post that m(3) by simp
    then show ?thesis using ltk [of k] that m by simp
  qed
  have R: "key (d4 ! mid) \<le> key (d4 ! k)" if "Suc mid \<le> k" "k < b" for k
  proof -
    have "\<not> lt (d4 ! k) (d4 ! mid)" using post that m(3) by simp
    then show ?thesis using ltk [of k] that by simp
  qed
  show ?thesis using m(1,2) f L R by blast
qed

lemma join_left_first:
  assumes "a \<le> mid" "mid < b" "b \<le> length d4"
    and L: "\<forall>k. a \<le> k \<and> k < mid \<longrightarrow> key (d4 ! k) \<le> key (d4 ! mid)"
    and R: "\<forall>k. Suc mid \<le> k \<and> k < b \<longrightarrow> key (d4 ! mid) \<le> key (d4 ! k)"
    and f1: "framed a mid d4 r1" and s1: "sortedRange key r1 a mid"
    and f2: "framed (Suc mid) b r1 r2" and s2: "sortedRange key r2 (Suc mid) b"
  shows "framed a b d4 r2 \<and> sortedRange key r2 a b"
proof -
  have len1: "length r1 = length d4" using f1 by (rule framed_length)
  have m1: "r1 ! mid = d4 ! mid" using assms(2,3) by (intro framed_outside [OF f1]) simp_all
  have m2: "r2 ! mid = r1 ! mid" using assms(2,3) len1 by (intro framed_outside [OF f2]) simp_all
  have L1: "key (r1 ! k) \<le> key (d4 ! mid)" if "a \<le> k" "k < mid" for k
    using f1 assms(1) _ L that
    by (rule framed_range_all [where P = "\<lambda>x. key x \<le> key (d4 ! mid)"]) (use assms in simp)
  have L2: "key (r2 ! k) \<le> key (r2 ! mid)" if "a \<le> k" "k < mid" for k
  proof -
    have "r2 ! k = r1 ! k" using that assms(2,3) len1 by (intro framed_outside [OF f2]) simp_all
    then show ?thesis using L1 [OF that] m1 m2 by simp
  qed
  have R1: "\<forall>k. Suc mid \<le> k \<and> k < b \<longrightarrow> key (d4 ! mid) \<le> key (r1 ! k)"
  proof (intro allI impI)
    fix k assume k: "Suc mid \<le> k \<and> k < b"
    then have "r1 ! k = d4 ! k" using assms(3) by (intro framed_outside [OF f1]) simp_all
    then show "key (d4 ! mid) \<le> key (r1 ! k)" using R k by simp
  qed
  have R2: "key (r2 ! mid) \<le> key (r2 ! k)" if "mid < k" "k < b" for k
  proof -
    have "key (d4 ! mid) \<le> key (r2 ! k)"
      using f2 _ _ R1
    proof (rule framed_range_all [where P = "\<lambda>x. key (d4 ! mid) \<le> key x"])
      show "Suc mid \<le> b" using assms(2) by simp
      show "b \<le> length r1" using assms(3) len1 by simp
      show "Suc mid \<le> k" using that by simp
      show "k < b" using that by simp
    qed
    then show ?thesis using m1 m2 by simp
  qed
  have s2a: "sortedRange key r2 a mid"
    using s1 f2 by (rule sortedRange_framed_below) (use assms(2,3) len1 in simp_all)
  have so: "sortedRange key r2 a b" using s2a s2 L2 R2 by (rule sortedRange_pivot)
  have "framed a b d4 r1" using f1 by (rule framed_mono) (use assms(2) in simp_all)
  moreover have "framed a b r1 r2" using f2 by (rule framed_mono) (use assms(1) in simp_all)
  ultimately have "framed a b d4 r2" by (rule framed_trans)
  then show ?thesis using so by simp
qed

lemma join_right_first:
  assumes "a \<le> mid" "mid < b" "b \<le> length d4"
    and L: "\<forall>k. a \<le> k \<and> k < mid \<longrightarrow> key (d4 ! k) \<le> key (d4 ! mid)"
    and R: "\<forall>k. Suc mid \<le> k \<and> k < b \<longrightarrow> key (d4 ! mid) \<le> key (d4 ! k)"
    and f1: "framed (Suc mid) b d4 r1" and s1: "sortedRange key r1 (Suc mid) b"
    and f2: "framed a mid r1 r2" and s2: "sortedRange key r2 a mid"
  shows "framed a b d4 r2 \<and> sortedRange key r2 a b"
proof -
  have len1: "length r1 = length d4" using f1 by (rule framed_length)
  have m1: "r1 ! mid = d4 ! mid" using assms(2,3) by (intro framed_outside [OF f1]) simp_all
  have m2: "r2 ! mid = r1 ! mid" using assms(2,3) len1 by (intro framed_outside [OF f2]) simp_all
  have R1: "key (d4 ! mid) \<le> key (r1 ! k)" if "Suc mid \<le> k" "k < b" for k
    using f1 _ assms(3) R that
    by (rule framed_range_all [where P = "\<lambda>x. key (d4 ! mid) \<le> key x"]) (use assms in simp)
  have R2: "key (r2 ! mid) \<le> key (r2 ! k)" if "mid < k" "k < b" for k
  proof -
    have "r2 ! k = r1 ! k" using that assms(2,3) len1 by (intro framed_outside [OF f2]) simp_all
    moreover have "key (d4 ! mid) \<le> key (r1 ! k)" using that by (intro R1) simp_all
    ultimately show ?thesis using m1 m2 by simp
  qed
  have L1: "\<forall>k. a \<le> k \<and> k < mid \<longrightarrow> key (r1 ! k) \<le> key (d4 ! mid)"
  proof (intro allI impI)
    fix k assume k: "a \<le> k \<and> k < mid"
    then have "r1 ! k = d4 ! k" using assms(2,3) by (intro framed_outside [OF f1]) simp_all
    then show "key (r1 ! k) \<le> key (d4 ! mid)" using L k by simp
  qed
  have L2: "key (r2 ! k) \<le> key (r2 ! mid)" if "a \<le> k" "k < mid" for k
  proof -
    have "key (r2 ! k) \<le> key (d4 ! mid)"
      using f2 _ _ L1
    proof (rule framed_range_all [where P = "\<lambda>x. key x \<le> key (d4 ! mid)"])
      show "a \<le> mid" by (rule assms(1))
      show "mid \<le> length r1" using assms(2,3) len1 by simp
      show "a \<le> k" using that by simp
      show "k < mid" using that by simp
    qed
    then show ?thesis using m1 m2 by simp
  qed
  have s2a: "sortedRange key r2 (Suc mid) b"
    using s1 f2 by (rule sortedRange_framed_above) (use assms(2,3) len1 in simp_all)
  have so: "sortedRange key r2 a b" using s2 s2a L2 R2 by (rule sortedRange_pivot)
  have "framed a b d4 r1" using f1 by (rule framed_mono) (use assms(1) in simp_all)
  moreover have "framed a b r1 r2" using f2 by (rule framed_mono) (use assms(2) in simp_all)
  ultimately have "framed a b d4 r2" by (rule framed_trans)
  then show ?thesis using so by simp
qed

lemma lowBound_right:
  assumes "\<forall>k. Suc mid \<le> k \<and> k < b \<longrightarrow> key (d ! mid) \<le> key (d ! k)"
  shows "lowBound key d (Suc mid) b"
  using assms by (simp add: lowBound_def)

lemma lowBound_left:
  assumes "lowBound key d a b" "mid \<le> b"
  shows "lowBound key d a mid"
  using assms by (rule lowBound_mono)

lemma partitionEqual_keys:
  assumes ag: "agree lt key d3" and bounds: "a \<le> pivot" "pivot < b" "b \<le> length d3"
    and lb: "lowBound key d3 a b" and a0: "0 < a" and nl: "\<not> lt (d3 ! (a - 1)) (d3 ! pivot)"
    and pe: "partitionEqualCmpFunc lt d3 a b pivot = (d4, mid)"
  shows "a < mid \<and> mid \<le> b \<and> framed a b d3 d4 \<and>
     (\<forall>k. a \<le> k \<and> k < mid \<longrightarrow> key (d4 ! k) = key (d3 ! pivot)) \<and>
     (\<forall>k. mid \<le> k \<and> k < b \<longrightarrow> key (d3 ! pivot) < key (d4 ! k))"
proof -
  note post = partitionEqualCmpFunc_post [OF pe bounds]
  have f: "framed a b d3 d4"
    using partitionEqualCmpFunc_framed [OF bounds, of lt] pe by simp
  have ag4: "agree lt key d4" using f ag by (rule framed_agree)
  have len4: "length d4 = length d3" using f by (rule framed_length)
  have m: "a < mid" "mid \<le> b" "d4 ! a = d3 ! pivot" using post by simp_all
  have ab: "a \<le> b" using bounds by simp
  have ltk: "lt (d4 ! a) (d4 ! x) = (key (d4 ! a) < key (d4 ! x))" if "x < b" for x
    using that m bounds len4 by (intro agree_nth [OF ag4]) simp_all
  have "lt (d3 ! (a - 1)) (d3 ! pivot) = (key (d3 ! (a - 1)) < key (d3 ! pivot))"
    using bounds a0 by (intro agree_nth [OF ag]) simp_all
  then have up: "key (d3 ! pivot) \<le> key (d3 ! (a - 1))" using nl by simp
  have lo3: "\<forall>i. a \<le> i \<and> i < b \<longrightarrow> key (d3 ! pivot) \<le> key (d3 ! i)"
  proof (intro allI impI)
    fix i assume "a \<le> i \<and> i < b"
    then have "key (d3 ! (a - 1)) \<le> key (d3 ! i)" using lb a0 by (simp add: lowBound_def)
    with up show "key (d3 ! pivot) \<le> key (d3 ! i)" by (rule order_trans)
  qed
  have lo4: "key (d3 ! pivot) \<le> key (d4 ! k)" if "a \<le> k" "k < b" for k
    using f ab bounds(3) lo3 that
    by (rule framed_range_all [where P = "\<lambda>x. key (d3 ! pivot) \<le> key x"])
  have L: "key (d4 ! k) = key (d3 ! pivot)" if "a \<le> k" "k < mid" for k
  proof (cases "k = a")
    case True
    then show ?thesis using m(3) by simp
  next
    case False
    then have "\<not> lt (d4 ! a) (d4 ! k)" using post that m(3) by simp
    then have "key (d4 ! k) \<le> key (d3 ! pivot)" using ltk [of k] that m by simp
    moreover have "key (d3 ! pivot) \<le> key (d4 ! k)" using that m by (intro lo4) simp_all
    ultimately show ?thesis by simp
  qed
  have R: "key (d3 ! pivot) < key (d4 ! k)" if "mid \<le> k" "k < b" for k
  proof -
    have "lt (d4 ! a) (d4 ! k)" using post that m(3) by simp
    then show ?thesis using ltk [of k] that m(3) by simp
  qed
  show ?thesis using m(1,2) f L R by blast
qed

lemma join_equal:
  assumes "a < mid" "mid \<le> b" "b \<le> length d4"
    and L: "\<forall>k. a \<le> k \<and> k < mid \<longrightarrow> key (d4 ! k) = v"
    and R: "\<forall>k. mid \<le> k \<and> k < b \<longrightarrow> v < key (d4 ! k)"
    and f: "framed mid b d4 r" and s: "sortedRange key r mid b"
  shows "framed a b d4 r \<and> sortedRange key r a b"
proof -
  have L1: "key (r ! k) = v" if "a \<le> k" "k < mid" for k
  proof -
    have "r ! k = d4 ! k" using that assms(2,3) by (intro framed_outside [OF f]) simp_all
    then show ?thesis using L that by simp
  qed
  have R1: "v < key (r ! k)" if "mid \<le> k" "k < b" for k
    using f assms(2,3) R that by (rule framed_range_all [where P = "\<lambda>x. v < key x"])
  have sl: "sortedRange key r a mid"
    unfolding sortedRange_def
  proof (intro allI impI)
    fix p q assume "a \<le> p \<and> p \<le> q \<and> q < mid"
    then have "key (r ! p) = v" "key (r ! q) = v" by (auto intro: L1)
    then show "key (r ! p) \<le> key (r ! q)" by simp
  qed
  have so: "sortedRange key r a b"
    using sl s
  proof (rule sortedRange_join)
    fix p q assume "a \<le> p" "p < mid" "mid \<le> q" "q < b"
    then have "key (r ! p) = v" "v < key (r ! q)" by (auto intro: L1 R1)
    then show "key (r ! p) \<le> key (r ! q)" by simp
  qed
  have "framed a b d4 r" using f by (rule framed_mono) (use assms(1) in simp_all)
  then show ?thesis using so by simp
qed

lemma lowBound_equal:
  assumes "a < mid"
    and L: "\<forall>k. a \<le> k \<and> k < mid \<longrightarrow> key (d4 ! k) = v"
    and R: "\<forall>k. mid \<le> k \<and> k < b \<longrightarrow> v < key (d4 ! k)"
  shows "lowBound key d4 mid b"
  unfolding lowBound_def
proof (intro impI allI)
  fix i assume "mid \<le> i \<and> i < b"
  then have "v < key (d4 ! i)" using R by simp
  moreover have "key (d4 ! (mid - 1)) = v" using L assms(1) by simp
  ultimately show "key (d4 ! (mid - 1)) \<le> key (d4 ! i)" by simp
qed

lemma pdqsortCmpFunc_correct:
  "agree lt key data \<Longrightarrow> a \<le> b \<Longrightarrow> b \<le> length data \<Longrightarrow> lowBound key data a b \<Longrightarrow>
   framed a b data (pdqsortCmpFunc lt data a b limit wb wp) \<and>
   sortedRange key (pdqsortCmpFunc lt data a b limit wb wp) a b"
proof (induction "b - a" arbitrary: data a b limit wb wp rule: less_induct)
  case less
  note ag = less.prems(1) and ab = less.prems(2) and bl = less.prems(3) and lb = less.prems(4)
  show ?case
  proof (cases "b - a \<le> 12")
    case True
    show ?thesis
      unfolding pdqsortCmpFunc_small [OF True]
      using insertionSortCmpFunc_framed [OF bl] insertionSortCmpFunc_sorted [OF ag bl] by simp
  next
    case big: False
    show ?thesis
    proof (cases "limit = 0")
      case True
      show ?thesis
        unfolding True pdqsortCmpFunc_heap [OF big]
        using heapSortCmpFunc_framed [OF ab bl] heapSortCmpFunc_sorted [OF ag ab bl] by simp
    next
      case False
      define data1 where "data1 = (if \<not> wb then breakPatternsCmpFunc data a b else data)"
      define limit1 where "limit1 = (if \<not> wb then limit - 1 else limit)"
      define pivot0 where "pivot0 = fst (choosePivotCmpFunc lt data1 a b)"
      define hint0 where "hint0 = snd (choosePivotCmpFunc lt data1 a b)"
      define data2 where "data2 = (if hint0 = decreasingHint then reverseRangeCmpFunc data1 a b else data1)"
      define pivot where "pivot = (if hint0 = decreasingHint then (b - 1) - (pivot0 - a) else pivot0)"
      define hint where "hint = (if hint0 = decreasingHint then increasingHint else hint0)"
      define ps where "ps = (if wb \<and> wp \<and> hint = increasingHint
               then partialInsertionSortCmpFunc lt data2 a b else (data2, False))"
      define data3 where "data3 = fst ps"
      define pe where "pe = partitionEqualCmpFunc lt (fst ps) a b pivot"
      define pp where "pp = partitionCmpFunc lt (fst ps) a b pivot"
      define mid where "mid = fst (snd pp)"
      note unf = pdqsortCmpFunc_unfold [OF big False data1_def limit1_def pivot0_def hint0_def
          data2_def pivot_def hint_def ps_def pe_def pp_def mid_def]
      have f01: "framed a b data data1"
        unfolding data1_def using breakPatternsCmpFunc_framed [OF ab bl] by simp
      have len1: "length data1 = length data" using f01 by (rule framed_length)
      have b8: "8 \<le> b - a" using big by simp
      have p0: "a \<le> pivot0" "pivot0 < b"
        unfolding pivot0_def using choosePivotCmpFunc_bounds [OF b8, of lt data1] by simp_all
      have f12: "framed a b data1 data2"
        unfolding data2_def using reverseRangeCmpFunc_framed [of b data1 a] bl len1 by simp
      have len2: "length data2 = length data" using f12 len1 by (simp add: framed_length)
      have pv: "a \<le> pivot" "pivot < b" unfolding pivot_def using p0 by auto
      have f02: "framed a b data data2" using f01 f12 by (rule framed_trans)
      have ag2: "agree lt key data2" using f02 ag by (rule framed_agree)
      have lb2: "lowBound key data2 a b" using lb f02 ab bl by (rule lowBound_framed)
      have alb: "a < b" using big by simp
      have bl2: "b \<le> length data2" using bl len2 by simp
      have ps_ok: "framed a b data2 (fst ps) \<and> (snd ps \<longrightarrow> sortedRange key (fst ps) a b)"
        unfolding ps_def
        using partialInsertionSortCmpFunc_correct [OF ag2 alb bl2 lb2] by simp
      have f23: "framed a b data2 data3" using ps_ok by (simp add: data3_def)
      have f03: "framed a b data data3" using f02 f23 by (rule framed_trans)
      have len3: "length data3 = length data" using f03 by (rule framed_length)
      have bl3: "b \<le> length data3" using bl len3 by simp
      have ag3: "agree lt key data3" using f03 ag by (rule framed_agree)
      have lb3: "lowBound key data3 a b" using lb f03 ab bl by (rule lowBound_framed)
      show ?thesis
      proof (cases "snd ps")
        case True
        then have "pdqsortCmpFunc lt data a b limit wb wp = data3" by (simp add: unf data3_def)
        moreover have "sortedRange key data3 a b" using ps_ok True by (simp add: data3_def)
        ultimately show ?thesis using f03 by simp
      next
        case ns: False
        show ?thesis
        proof (cases "0 < a \<and> \<not> lt (data3 ! (a - 1)) (data3 ! pivot)")
          case True
          obtain d4 m where pe_eq: "partitionEqualCmpFunc lt data3 a b pivot = (d4, m)"
            by (cases "partitionEqualCmpFunc lt data3 a b pivot") auto
          have pe_fs: "fst pe = d4" "snd pe = m" using pe_eq by (simp_all add: pe_def data3_def)
          have eq': "0 < a \<and> \<not> lt (fst ps ! (a - 1)) (fst ps ! pivot)"
            using True unfolding data3_def .
          have r: "pdqsortCmpFunc lt data a b limit wb wp = pdqsortCmpFunc lt d4 m b limit1 wb wp"
            by (simp only: unf ns eq' simp_thms if_False if_True pe_fs)
          have a0: "0 < a" and nl: "\<not> lt (data3 ! (a - 1)) (data3 ! pivot)" using True by simp_all
          note k = partitionEqual_keys [OF ag3 pv bl3 lb3 a0 nl pe_eq]
          have m: "a < m" "m \<le> b" and f34: "framed a b data3 d4"
            and L: "\<forall>k. a \<le> k \<and> k < m \<longrightarrow> key (d4 ! k) = key (data3 ! pivot)"
            and R: "\<forall>k. m \<le> k \<and> k < b \<longrightarrow> key (data3 ! pivot) < key (d4 ! k)"
            using k by simp_all
          have len4: "b \<le> length d4" using bl3 framed_length [OF f34] by simp
          have ag4: "agree lt key d4" using f34 ag3 by (rule framed_agree)
          have lb4: "lowBound key d4 m b" using m(1) L R by (rule lowBound_equal)
          have "b - m < b - a" using m alb by linarith
          then have rec: "framed m b d4 (pdqsortCmpFunc lt d4 m b limit1 wb wp) \<and>
              sortedRange key (pdqsortCmpFunc lt d4 m b limit1 wb wp) m b"
            using ag4 m(2) len4 lb4 by (rule less.hyps)
          have "framed a b d4 (pdqsortCmpFunc lt d4 m b limit1 wb wp) \<and>
              sortedRange key (pdqsortCmpFunc lt d4 m b limit1 wb wp) a b"
            using m len4 L R rec [THEN conjunct1] rec [THEN conjunct2] by (rule join_equal)
          then show ?thesis unfolding r using framed_trans [OF f03 f34] framed_trans by blast
        next
          case ne: False
          obtain d4 m ap where pp_eq: "partitionCmpFunc lt data3 a b pivot = (d4, m, ap)"
            by (cases "partitionCmpFunc lt data3 a b pivot") auto
          have mid_eq: "mid = m" "fst pp = d4" "snd (snd pp) = ap"
            using pp_eq by (simp_all add: mid_def pp_def data3_def [symmetric])
          have ne': "\<not> (0 < a \<and> \<not> lt (fst ps ! (a - 1)) (fst ps ! pivot))"
            using ne unfolding data3_def .
          note k = partition_keys [OF ag3 pv bl3 pp_eq]
          have m: "a \<le> m" "m < b" and f34: "framed a b data3 d4"
            and L: "\<forall>k. a \<le> k \<and> k < m \<longrightarrow> key (d4 ! k) \<le> key (d4 ! m)"
            and R: "\<forall>k. Suc m \<le> k \<and> k < b \<longrightarrow> key (d4 ! m) \<le> key (d4 ! k)"
            using k by simp_all
          have len4: "b \<le> length d4" using bl3 framed_length [OF f34] by simp
          have l4: "length d4 = length data3" using f34 by (rule framed_length)
          have ag4: "agree lt key d4" using f34 ag3 by (rule framed_agree)
          have lb4: "lowBound key d4 a b" using lb3 f34 ab bl3 by (rule lowBound_framed)
          have f04: "framed a b data d4" using f03 f34 by (rule framed_trans)
          show ?thesis
          proof (cases "m - a < b - m")
            case True
            define r1 where "r1 = pdqsortCmpFunc lt d4 a m limit1 True True"
            define r2 where "r2 = pdqsortCmpFunc lt r1 (m + 1) b limit1 ((b - a) div 8 \<le> m - a) ap"
            have r: "pdqsortCmpFunc lt data a b limit wb wp = r2"
              by (simp only: unf ns ne' if_False mid_eq True if_True r1_def r2_def)
            have "m - a < b - a" using m by linarith
            then have rec1: "framed a m d4 r1 \<and> sortedRange key r1 a m"
              unfolding r1_def using ag4 m(1)
            proof (rule less.hyps)
              show "m \<le> length d4" using m len4 by simp
              show "lowBound key d4 a m" using lb4 by (rule lowBound_mono) (use m in simp)
            qed
            have f1: "framed a m d4 r1" and s1: "sortedRange key r1 a m" using rec1 by simp_all
            have lr1: "length r1 = length d4" using f1 by (rule framed_length)
            have ag1: "agree lt key r1" using f1 ag4 by (rule framed_agree)
            have R1: "\<forall>k. Suc m \<le> k \<and> k < b \<longrightarrow> key (r1 ! m) \<le> key (r1 ! k)"
            proof (intro allI impI)
              fix k assume k: "Suc m \<le> k \<and> k < b"
              have "r1 ! k = d4 ! k" using k len4 by (intro framed_outside [OF f1]) simp_all
              moreover have "r1 ! m = d4 ! m" using m len4 by (intro framed_outside [OF f1]) simp_all
              ultimately show "key (r1 ! m) \<le> key (r1 ! k)" using R k by simp
            qed
            have "b - (m + 1) < b - a" using m by linarith
            then have rec2: "framed (m + 1) b r1 r2 \<and> sortedRange key r2 (m + 1) b"
              unfolding r2_def using ag1
            proof (rule less.hyps)
              show "m + 1 \<le> b" using m by simp
              show "b \<le> length r1" using len4 lr1 by simp
              show "lowBound key r1 (m + 1) b" using lowBound_right [OF R1] by simp
            qed
            have f2: "framed (Suc m) b r1 r2" and s2: "sortedRange key r2 (Suc m) b"
              using rec2 by simp_all
            have "framed a b d4 r2 \<and> sortedRange key r2 a b"
              using m len4 L R f1 s1 f2 s2 by (rule join_left_first)
            then show ?thesis unfolding r using framed_trans [OF f04] by blast
          next
            case False
            define r1 where "r1 = pdqsortCmpFunc lt d4 (m + 1) b limit1 True True"
            define r2 where "r2 = pdqsortCmpFunc lt r1 a m limit1 ((b - a) div 8 \<le> b - m) ap"
            have r: "pdqsortCmpFunc lt data a b limit wb wp = r2"
              by (simp only: unf ns ne' if_False mid_eq False if_True r1_def r2_def)
            have "b - (m + 1) < b - a" using m by linarith
            then have rec1: "framed (m + 1) b d4 r1 \<and> sortedRange key r1 (m + 1) b"
              unfolding r1_def using ag4
            proof (rule less.hyps)
              show "m + 1 \<le> b" using m by simp
              show "b \<le> length d4" by (rule len4)
              show "lowBound key d4 (m + 1) b" using lowBound_right [OF R] by simp
            qed
            have f1: "framed (Suc m) b d4 r1" and s1: "sortedRange key r1 (Suc m) b"
              using rec1 by simp_all
            have lr1: "length r1 = length d4" using f1 by (rule framed_length)
            have ag1: "agree lt key r1" using f1 ag4 by (rule framed_agree)
            have "framed a b d4 r1" using f1 by (rule framed_mono) (use m in simp_all)
            then have lb1: "lowBound key r1 a b" using lb4 ab len4 by (intro lowBound_framed [of key d4 a b r1])
            have "m - a < b - a" using m by linarith
            then have rec2: "framed a m r1 r2 \<and> sortedRange key r2 a m"
              unfolding r2_def using ag1 m(1)
            proof (rule less.hyps)
              show "m \<le> length r1" using m len4 lr1 by simp
              show "lowBound key r1 a m" using lb1 by (rule lowBound_mono) (use m in simp)
            qed
            have f2: "framed a m r1 r2" and s2: "sortedRange key r2 a m" using rec2 by simp_all
            have "framed a b d4 r2 \<and> sortedRange key r2 a b"
              using m len4 L R f1 s1 f2 s2 by (rule join_right_first)
            then show ?thesis unfolding r using framed_trans [OF f04] by blast
          qed
        qed
      qed
    qed
  qed
qed

lemma SortFunc_sorted:
  assumes "agree (\<lambda>x y. cmp x y < 0) key data"
  shows "sorted (map key (SortFunc data cmp)) \<and> mset (SortFunc data cmp) = mset data"
proof -
  have lb: "lowBound key data 0 (length data)" by (simp add: lowBound_def)
  have c: "framed 0 (length data) data (SortFunc data cmp) \<and>
      sortedRange key (SortFunc data cmp) 0 (length data)"
    unfolding SortFunc_def using assms _ _ lb by (rule pdqsortCmpFunc_correct) simp_all
  have f: "framed 0 (length data) data (SortFunc data cmp)" using c by simp
  have len: "length (SortFunc data cmp) = length data" using f by (rule framed_length)
  have "sortedRange key (SortFunc data cmp) 0 (length (SortFunc data cmp))" using c len by simp
  then have "sorted (map key (SortFunc data cmp))" by (rule sortedRange_whole)
  then show ?thesis using framed_mset [OF f] by simp
qed

subsection \<open>The comparison of two pages\<close>

lemma sint_diff_small:
  assumes "- (2 ^ 62) \<le> a" "a < 2 ^ 62" "- (2 ^ 62) \<le> b" "b < 2 ^ 62"
  shows "sint (word_of_int a - word_of_int b :: 64 word) = a - (b::int)"
proof -
  have "word_of_int a - word_of_int b = (word_of_int (a - b) :: 64 word)" by simp
  moreover have "sint (word_of_int (a - b) :: 64 word) = signed_take_bit 63 (a - b)"
    by (simp del: of_int_diff add: sint_sbintrunc')
  moreover have "signed_take_bit 63 (a - b) = a - b"
    using assms by (intro signed_take_bit_int_eq_self) auto
  ultimately show ?thesis by simp
qed

lemma cmpPages_agree:
  assumes "\<forall>p \<in> set ps. 0 \<le> number p \<and> number p \<le> 9"
  shows "agree (\<lambda>x y. cmpPages x y < 0) number ps"
  unfolding agree_def
proof (intro ballI)
  fix x y assume "x \<in> set ps" "y \<in> set ps"
  then have "0 \<le> number x" "number x \<le> 9" "0 \<le> number y" "number y \<le> 9"
    using assms by auto
  then have "cmpPages x y = number x - number y"
    unfolding cmpPages_def by (intro sint_diff_small) auto
  then show "(cmpPages x y < 0) = (number x < number y)" by simp
qed

text \<open>
  Claim C1, as the code has it. The pages that the loop of \<open>ingestPages\<close> has accumulated
  are returned sorted ascending by page number, the same pages rearranged, however many
  there are. When there are at most 12 of them (the library then sorts by insertion),
  pages of equal number stay in the order of their discovery.
\<close>

theorem C1_sort_of_pages:
  assumes "walkDirectorySearchPath cfg fs w = (sent, None, w1)"
    and "ingestLoop sent [] w1 = (Ok ps, w2)"
  shows "ingestPages cfg fs w = (Ok (SortFunc ps cmpPages), w2) \<and>
    sorted (map number (SortFunc ps cmpPages)) \<and>
    mset (SortFunc ps cmpPages) = mset ps \<and>
    (length ps \<le> 12 \<longrightarrow>
       (\<forall>k. filter (\<lambda>p. number p = k) (SortFunc ps cmpPages) = filter (\<lambda>p. number p = k) ps))"
proof -
  have "\<forall>p \<in> set ps. 0 \<le> number p \<and> number p \<le> 9"
    using assms(2) by (rule ingestLoop_numbers) simp
  then have ag: "agree (\<lambda>x y. cmpPages x y < 0) number ps" by (rule cmpPages_agree)
  have so: "sorted (map number (SortFunc ps cmpPages)) \<and> mset (SortFunc ps cmpPages) = mset ps"
    using ag by (rule SortFunc_sorted)
  have ing: "ingestPages cfg fs w = (Ok (SortFunc ps cmpPages), w2)"
    using assms(1,2) by (simp add: ingestPages_def)
  have st: "\<forall>k. filter (\<lambda>p. number p = k) (SortFunc ps cmpPages) = filter (\<lambda>p. number p = k) ps"
    if "length ps \<le> 12"
  proof -
    have eq: "SortFunc ps cmpPages = sort_key number ps" using ag that by (rule SortFunc_small)
    have "\<forall>k. filter (\<lambda>p. number p = k) (sort_key number ps) = filter (\<lambda>p. number p = k) ps"
      by (simp add: filter_sort [symmetric] sort_key_stable cong: filter_cong)
    then show ?thesis by (simp add: eq)
  qed
  show ?thesis using ing so st by blast
qed

lemma example_pair_walk:
  "walkDirectorySearchPath exampleConfig (Root pairTree) emptyWorld =
     ([''scans/b2.jpg'', ''scans/a1.jpg'', ''scans/c2.jpg''], None, emptyWorld)"
  by code_simp

lemma example_pair_loop:
  "ingestLoop [''scans/b2.jpg'', ''scans/a1.jpg'', ''scans/c2.jpg''] [] emptyWorld =
     (Ok [examplePage ''scans/b2.jpg'' 2 [], examplePage ''scans/a1.jpg'' 1 [],
          examplePage ''scans/c2.jpg'' 2 []],
      \<lparr>stdout = [''found page: scans/b2.jpg'', ''found page: scans/a1.jpg'',
                  ''found page: scans/c2.jpg''],
       executed = [], tempFiles = []\<rparr>)"
  by code_simp

lemma example_pair_sort:
  "SortFunc [examplePage ''scans/b2.jpg'' 2 [], examplePage ''scans/a1.jpg'' 1 [],
             examplePage ''scans/c2.jpg'' 2 []] cmpPages =
     [examplePage ''scans/a1.jpg'' 1 [], examplePage ''scans/b2.jpg'' 2 [],
      examplePage ''scans/c2.jpg'' 2 []]"
  by code_simp

theorem C1_sort_of_pages_witness:
  "walkDirectorySearchPath exampleConfig (Root pairTree) emptyWorld =
     ([''scans/b2.jpg'', ''scans/a1.jpg'', ''scans/c2.jpg''], None, emptyWorld) \<and>
   ingestLoop [''scans/b2.jpg'', ''scans/a1.jpg'', ''scans/c2.jpg''] [] emptyWorld =
     (Ok [examplePage ''scans/b2.jpg'' 2 [], examplePage ''scans/a1.jpg'' 1 [],
          examplePage ''scans/c2.jpg'' 2 []],
      \<lparr>stdout = [''found page: scans/b2.jpg'', ''found page: scans/a1.jpg'',
                  ''found page: scans/c2.jpg''],
       executed = [], tempFiles = []\<rparr>) \<and>
   length [examplePage ''scans/b2.jpg'' 2 [], examplePage ''scans/a1.jpg'' 1 [],
           examplePage ''scans/c2.jpg'' 2 []] \<le> 12 \<and>
   ingestPages exampleConfig (Root pairTree) emptyWorld =
     (Ok [examplePage ''scans/a1.jpg'' 1 [], examplePage ''scans/b2.jpg'' 2 [],
          examplePage ''scans/c2.jpg'' 2 []],
      \<lparr>stdout = [''found page: scans/b2.jpg'', ''found page: scans/a1.jpg'',
                  ''found page: scans/c2.jpg''],
       executed = [], tempFiles = []\<rparr>)"
proof -
  have len: "length [examplePage ''scans/b2.jpg'' 2 [], examplePage ''scans/a1.jpg'' 1 [],
           examplePage ''scans/c2.jpg'' 2 []] \<le> 12" by simp
  note c = C1_sort_of_pages [OF example_pair_walk example_pair_loop]
  then have "ingestPages exampleConfig (Root pairTree) emptyWorld =
     (Ok [examplePage ''scans/a1.jpg'' 1 [], examplePage ''scans/b2.jpg'' 2 [],
          examplePage ''scans/c2.jpg'' 2 []],
      \<lparr>stdout = [''found page: scans/b2.jpg'', ''found page: scans/a1.jpg'',
                  ''found page: scans/c2.jpg''],
       executed = [], tempFiles = []\<rparr>)"
    by (simp only: example_pair_sort)
  then show ?thesis using example_pair_walk example_pair_loop len by blast
qed

text \<open>
  The claim as written fails: of thirteen pages, twelve have the number 0; the result
  is sorted by number, but the page found seventh (\<^verbatim>\<open>g0.jpg\<close>) comes first in it, before
  the five pages of the same number that were found before it.
\<close>

theorem C1_counterexample:
  "fst (walkDirectorySearchPath exampleConfig (Root shelfTree) emptyWorld) =
     [''scans/a1.jpg'', ''scans/b0.jpg'', ''scans/c0.jpg'', ''scans/d0.jpg'', ''scans/e0.jpg'',
      ''scans/f0.jpg'', ''scans/g0.jpg'', ''scans/h0.jpg'', ''scans/i0.jpg'', ''scans/j0.jpg'',
      ''scans/k0.jpg'', ''scans/l0.jpg'', ''scans/m0.jpg''] \<and>
   fst (ingestPages exampleConfig (Root shelfTree) emptyWorld) =
     Ok [examplePage ''scans/g0.jpg'' 0 [], examplePage ''scans/b0.jpg'' 0 [],
         examplePage ''scans/c0.jpg'' 0 [], examplePage ''scans/d0.jpg'' 0 [],
         examplePage ''scans/e0.jpg'' 0 [], examplePage ''scans/f0.jpg'' 0 [],
         examplePage ''scans/h0.jpg'' 0 [], examplePage ''scans/i0.jpg'' 0 [],
         examplePage ''scans/j0.jpg'' 0 [], examplePage ''scans/k0.jpg'' 0 [],
         examplePage ''scans/l0.jpg'' 0 [], examplePage ''scans/m0.jpg'' 0 [],
         examplePage ''scans/a1.jpg'' 1 []]"
  by code_simp

section \<open>The walk of the search path\<close>

lemma walked_Nil: "walked exts [] st = st"
  by (simp add: walked_def skippedLines_def)

lemma walked_append: "walked exts (ps @ qs) st = walked exts qs (walked exts ps st)"
  by (simp add: walked_def skippedLines_def)

lemma walkFn_file: "walkFn exts path False None st = (None, walked exts [path] st)"
  by (cases st) (simp add: walkFn_def walked_def skippedLines_def println_def)

lemma walkFn_dir: "walkFn exts path True None st = (None, st)"
  by (simp add: walkFn_def)

lemma walkDir_readable:
  "readable d \<Longrightarrow> walkDir exts path d st = (None, walked exts (filesUnder path d) st)"
  "list_all readable ds \<Longrightarrow>
     walkEntries exts path ds st = (None, walked exts (filesUnderEntries path ds) st)"
proof (induction exts path d st and exts path ds st rule: walkDir_walkEntries.induct)
  case (1 exts path n st)
  then show ?case by (simp add: walkFn_file)
next
  case (2 exts path n e st)
  then show ?case by simp
next
  case (3 exts path n entries st)
  then show ?case by (simp add: walkFn_dir)
next
  case (4 exts path st)
  then show ?case by (simp add: walked_Nil)
next
  case (5 exts path d1 ds st)
  then show ?case by (simp add: walked_append)
qed

text \<open>
  Claim C7. For every list of accepted extensions and every readable directory tree, the
  walk sends exactly the files under the tree whose extension (compared as a string, so
  case matters) is in the list, in the order of the walk; it sends no directory; and for
  every other file it prints a line and goes on without an error.
\<close>

theorem C7_walk_sends_matching_files:
  assumes "readable T"
  shows "walkDirectorySearchPath cfg (Root T) w =
     (filter (\<lambda>p. Ext p \<in> set (splitOn CHR '','' (fileExtensions cfg)))
        (filesUnder (directorySearchPath cfg) T),
      None,
      w\<lparr>stdout := stdout w @
          map (\<lambda>p. ''skipping: '' @ p)
            (filter (\<lambda>p. Ext p \<notin> set (splitOn CHR '','' (fileExtensions cfg)))
               (filesUnder (directorySearchPath cfg) T))\<rparr>)"
  using walkDir_readable(1) [OF assms]
  by (simp add: walkDirectorySearchPath_def WalkDir_def walked_def skippedLines_def Contains_def
      Let_def)

theorem C7_walk_sends_matching_files_witness:
  "readable exampleTree \<and>
   walkDirectorySearchPath exampleConfig (Root exampleTree) emptyWorld =
     ([''scans/a3.jpg'', ''scans/more/a1.jpeg'', ''scans/a2.jpg''],
      None,
      \<lparr>stdout = [''skipping: scans/b2.JPG'', ''skipping: scans/more/notes.txt''],
       executed = [], tempFiles = []\<rparr>)"
proof -
  have r: "readable exampleTree" by code_simp
  have "walkDirectorySearchPath exampleConfig (Root exampleTree) emptyWorld =
     ([''scans/a3.jpg'', ''scans/more/a1.jpeg'', ''scans/a2.jpg''],
      None,
      \<lparr>stdout = [''skipping: scans/b2.JPG'', ''skipping: scans/more/notes.txt''],
       executed = [], tempFiles = []\<rparr>)"
    unfolding C7_walk_sends_matching_files [OF r] by code_simp
  with r show ?thesis by simp
qed

section \<open>The transform of the pages and the bundle\<close>

lemma generate_page: "fst (snd (generate cfg e p w)) = generatedPage cfg e p"
  by (auto simp: generate_def generatedPage_def createTempFile_def tempPattern_def Let_def
      split: sum.splits option.splits prod.splits)

lemma generate_error_world: "fst (generate cfg e p w) = fst (generate cfg e p w0)"
  by (simp add: generate_def createTempFile_def convert_def watermark_def CombinedOutput_def
      Let_def split: sum.splits option.splits prod.splits)

lemma println_stdout: "stdout (println l w) = stdout w @ [l]"
  by (simp add: println_def)

lemma genProcessedPages_Cons:
  "genProcessedPages cfg e (p # ps) w =
     (generatedPage cfg e p # fst (genProcessedPages cfg e ps (afterPage cfg e p w)),
      snd (genProcessedPages cfg e ps (afterPage cfg e p w)))"
proof -
  obtain err p1 w1 where g: "generate cfg e p w = (err, p1, w1)" by (cases "generate cfg e p w") auto
  have "p1 = generatedPage cfg e p" using generate_page [of cfg e p w] g by simp
  then show ?thesis using g by (simp add: afterPage_def Let_def split: prod.splits)
qed

declare genProcessedPages.simps(2) [simp del]

lemma genProcessedPages_pages:
  "fst (genProcessedPages cfg e pages w) = map (generatedPage cfg e) pages"
  by (induction pages arbitrary: w) (simp_all add: genProcessedPages_Cons)

lemma generate_stdout_mono: "set (stdout w) \<subseteq> set (stdout (snd (snd (generate cfg e p w))))"
  by (auto simp: generate_def createTempFile_def convert_def watermark_def CombinedOutput_def
      printCommandOutput_def println_def Let_def split: sum.splits option.splits prod.splits if_splits)

lemma afterPage_stdout_mono: "set (stdout w) \<subseteq> set (stdout (afterPage cfg e p w))"
  using generate_stdout_mono [of w cfg e p]
  by (auto simp: afterPage_def println_def split: prod.splits)

lemma genProcessedPages_stdout_mono:
  "set (stdout w) \<subseteq> set (stdout (snd (genProcessedPages cfg e pages w)))"
proof (induction pages arbitrary: w)
  case Nil
  then show ?case by simp
next
  case (Cons p ps)
  show ?case
    using afterPage_stdout_mono [of w cfg e p] Cons.IH [of "afterPage cfg e p w"]
    by (auto simp: genProcessedPages_Cons)
qed

lemma generatedPage_filepath: "filepath (generatedPage cfg e p) = filepath p"
  by (simp add: generatedPage_def split: sum.splits)

lemma afterPage_error_line:
  "fst (generate cfg e p w0) \<noteq> None \<Longrightarrow>
   (''error processing page: '' @ filepath p) \<in> set (stdout (afterPage cfg e p w))"
proof -
  assume f: "fst (generate cfg e p w0) \<noteq> None"
  obtain err p1 w1 where g: "generate cfg e p w = (err, p1, w1)" by (cases "generate cfg e p w") auto
  have "p1 = generatedPage cfg e p" using generate_page [of cfg e p w] g by simp
  moreover have "err \<noteq> None" using f g generate_error_world [of cfg e p w w0] by simp
  ultimately show ?thesis using g by (simp add: afterPage_def println_def generatedPage_filepath)
qed

lemma genProcessedPages_error_line:
  "i < length pages \<Longrightarrow> fst (generate cfg e (pages ! i) w0) \<noteq> None \<Longrightarrow>
   (''error processing page: '' @ filepath (pages ! i))
     \<in> set (stdout (snd (genProcessedPages cfg e pages w)))"
proof (induction pages arbitrary: w i)
  case Nil
  then show ?case by simp
next
  case (Cons p ps)
  show ?case
  proof (cases i)
    case 0
    then show ?thesis
      using afterPage_error_line [of cfg e p w0 w] Cons.prems(2)
        genProcessedPages_stdout_mono [of "afterPage cfg e p w" cfg e ps]
      by (auto simp: genProcessedPages_Cons)
  next
    case (Suc k)
    then show ?thesis
      using Cons.prems Cons.IH [of k "afterPage cfg e p w"] by (simp add: genProcessedPages_Cons)
  qed
qed




text \<open>
  Claim C5, as the code has it. When the transform of a page fails, the dispatcher prints
  the line that names the source path of the page, and every page of the slice, the
  failed one and its siblings alike, ends as its own \<open>generate\<close> leaves it. The temporary
  path of the failed page stays as it was (empty) only when the creation of the temporary
  file failed; after a failure of the convert or the watermark step it is the path of
  the file created before.
\<close>

theorem C5_failed_page:
  assumes "genProcessedPages cfg e pages w = (pages', w')"
    and "i < length pages"
    and "fst (generate cfg e (pages ! i) w0) \<noteq> None"
  shows "(''error processing page: '' @ filepath (pages ! i)) \<in> set (stdout w') \<and>
    length pages' = length pages \<and>
    (\<forall>j < length pages. pages' ! j = fst (snd (generate cfg e (pages ! j) w0))) \<and>
    tmpPath (pages' ! i) =
      (case osCreateTemp e (filepath (pages ! i)) (workDirectory cfg)
              (''watermarker-*'' @ Ext (filepath (pages ! i))) of
         Inl msg \<Rightarrow> tmpPath (pages ! i)
       | Inr name \<Rightarrow> name)"
proof -
  have pages': "pages' = map (generatedPage cfg e) pages"
    using genProcessedPages_pages [of cfg e pages w] assms(1) by simp
  have w': "w' = snd (genProcessedPages cfg e pages w)" using assms(1) by simp
  have "(''error processing page: '' @ filepath (pages ! i)) \<in> set (stdout w')"
    unfolding w' by (rule genProcessedPages_error_line [OF assms(2,3)])
  moreover have "tmpPath (generatedPage cfg e (pages ! i)) =
      (case osCreateTemp e (filepath (pages ! i)) (workDirectory cfg)
              (''watermarker-*'' @ Ext (filepath (pages ! i))) of
         Inl msg \<Rightarrow> tmpPath (pages ! i)
       | Inr name \<Rightarrow> name)"
    by (simp add: generatedPage_def tempPattern_def split: sum.splits)
  ultimately show ?thesis using assms(2) by (simp add: pages' generate_page)
qed

lemma example_genProcessedPages:
  "genProcessedPages exampleConfig (exampleEnv ''convert'' ''scans/a2.jpg'')
     [examplePage ''scans/a2.jpg'' 2 [], examplePage ''scans/a3.jpg'' 3 []] emptyWorld =
   ([examplePage ''scans/a2.jpg'' 2 [], examplePage ''scans/a3.jpg'' 3 ''wd/watermarker-a3.jpg''],
    \<lparr>stdout = [''error processing page: scans/a2.jpg'', ''convert: failed'',
                ''error processing page: scans/a3.jpg''],
     executed = [(''convert'',
       [''scans/a3.jpg'', ''-auto-orient'', ''-resize'', ''1500x1500'', ''-density'', ''150'',
        ''-strip'', ''wd/watermarker-a3.jpg''])],
     tempFiles = [''wd/watermarker-a3.jpg'']\<rparr>)"
  by code_simp

lemma example_generate_fails:
  "fst (generate exampleConfig (exampleEnv ''convert'' ''scans/a2.jpg'')
     ([examplePage ''scans/a2.jpg'' 2 [], examplePage ''scans/a3.jpg'' 3 []] ! 1) emptyWorld) \<noteq> None"
  by code_simp

theorem C5_failed_page_witness:
  "genProcessedPages exampleConfig (exampleEnv ''convert'' ''scans/a2.jpg'')
     [examplePage ''scans/a2.jpg'' 2 [], examplePage ''scans/a3.jpg'' 3 []] emptyWorld =
   ([examplePage ''scans/a2.jpg'' 2 [], examplePage ''scans/a3.jpg'' 3 ''wd/watermarker-a3.jpg''],
    \<lparr>stdout = [''error processing page: scans/a2.jpg'', ''convert: failed'',
                ''error processing page: scans/a3.jpg''],
     executed = [(''convert'',
       [''scans/a3.jpg'', ''-auto-orient'', ''-resize'', ''1500x1500'', ''-density'', ''150'',
        ''-strip'', ''wd/watermarker-a3.jpg''])],
     tempFiles = [''wd/watermarker-a3.jpg'']\<rparr>) \<and>
   (1::nat) < length [examplePage ''scans/a2.jpg'' 2 [], examplePage ''scans/a3.jpg'' 3 []] \<and>
   fst (generate exampleConfig (exampleEnv ''convert'' ''scans/a2.jpg'')
     ([examplePage ''scans/a2.jpg'' 2 [], examplePage ''scans/a3.jpg'' 3 []] ! 1) emptyWorld) \<noteq> None \<and>
   ''error processing page: scans/a3.jpg'' \<in>
     set [''error processing page: scans/a2.jpg'', ''convert: failed'',
          ''error processing page: scans/a3.jpg''] \<and>
   tmpPath ([examplePage ''scans/a2.jpg'' 2 [],
             examplePage ''scans/a3.jpg'' 3 ''wd/watermarker-a3.jpg''] ! 1) = ''wd/watermarker-a3.jpg''"
proof -
  have len: "(1::nat) < length [examplePage ''scans/a2.jpg'' 2 [], examplePage ''scans/a3.jpg'' 3 []]"
    by simp
  note c = C5_failed_page [OF example_genProcessedPages len example_generate_fails]
  have line: "''error processing page: scans/a3.jpg'' \<in>
     set [''error processing page: scans/a2.jpg'', ''convert: failed'',
          ''error processing page: scans/a3.jpg'']"
    using c by (simp add: examplePage_def)
  have tmp: "tmpPath ([examplePage ''scans/a2.jpg'' 2 [],
             examplePage ''scans/a3.jpg'' 3 ''wd/watermarker-a3.jpg''] ! 1) = ''wd/watermarker-a3.jpg''"
    using c by (simp add: examplePage_def)
  show ?thesis using example_genProcessedPages len example_generate_fails line tmp by blast
qed

text \<open>
  The claim as written fails: the convert step of the page fails, the failure is
  printed, and the temporary path of the page is set when the dispatcher returns.
\<close>

theorem C5_counterexample:
  "fst (generate exampleConfig (exampleEnv ''convert'' [])
      (examplePage ''scans/a3.jpg'' 3 []) emptyWorld) = Some (ExitError ''exit status 1'') \<and>
   genProcessedPages exampleConfig (exampleEnv ''convert'' [])
      [examplePage ''scans/a3.jpg'' 3 []] emptyWorld =
     ([examplePage ''scans/a3.jpg'' 3 ''wd/watermarker-a3.jpg''],
      \<lparr>stdout = [''convert: failed'', ''error processing page: scans/a3.jpg''],
       executed = [(''convert'',
         [''scans/a3.jpg'', ''-auto-orient'', ''-resize'', ''1500x1500'', ''-density'', ''150'',
          ''-strip'', ''wd/watermarker-a3.jpg''])],
       tempFiles = [''wd/watermarker-a3.jpg'']\<rparr>)"
  by code_simp

text \<open>
  Claim C3, as the code has it. \<open>bundlePages\<close> checks nothing: for every sequence of pages
  it runs \<^verbatim>\<open>img2pdf\<close> once, with the temporary path of every page in the order of the
  sequence, empty paths included, and its error is the error of that command.
\<close>

theorem C3_bundle_runs_unchecked:
  "executed (snd (bundlePages cfg e pages w)) =
     executed w @ [(''img2pdf'', ''--output'' # outputFilePath cfg # map tmpPath pages)] \<and>
   fst (bundlePages cfg e pages w) =
     map_option ExitError
       (snd (runCommand e ''img2pdf'' (''--output'' # outputFilePath cfg # map tmpPath pages)))"
  by (auto simp: bundlePages_def bundleArgs_def CombinedOutput_def printCommandOutput_def
      println_def split: prod.splits)

text \<open>
  The claim as written fails: the second page has no temporary file, and the assembly
  step is run all the same, with an empty path between the two others.
\<close>

theorem C3_counterexample:
  "tmpPath (examplePage ''scans/a2.jpg'' 2 []) = [] \<and>
   bundlePages exampleConfig (exampleEnv [] [])
     [examplePage ''scans/a1.jpg'' 1 ''wd/watermarker-a1.jpg'',
      examplePage ''scans/a2.jpg'' 2 [],
      examplePage ''scans/a3.jpg'' 3 ''wd/watermarker-a3.jpg''] emptyWorld =
   (None,
    \<lparr>stdout = [],
     executed = [(''img2pdf'',
       [''--output'', ''out.pdf'', ''wd/watermarker-a1.jpg'', [], ''wd/watermarker-a3.jpg''])],
     tempFiles = []\<rparr>)"
  by code_simp

text \<open>
  Claim C6. When the assembly step fails, \<open>main\<close> prints the error and returns before the
  loop that removes the temporary files: the files of all pages are left behind. When
  the step succeeds they are removed.
\<close>

theorem C6_files_left_after_failed_bundle:
  "main exampleConfig (exampleEnv ''img2pdf'' []) (Root smallTree) emptyWorld =
     (Returned,
      \<lparr>stdout =
         [''found page: scans/a2.jpg'', ''found page: scans/a1.jpg'',
          ''processed page: scans/a1.jpg'', ''processed page: scans/a2.jpg'',
          ''bundling...'', ''img2pdf: failed'', ''error bundling pages: exit status 1''],
       executed =
         [(''convert'',
           [''scans/a1.jpg'', ''-auto-orient'', ''-resize'', ''1500x1500'', ''-density'', ''150'',
            ''-strip'', ''wd/watermarker-a1.jpg'']),
          (''magick'',
           [''wd/watermarker-a1.jpg'', ''-colorspace'', ''sRGB'', ''-set'', ''option:WMSIZE'',
            ''%[fx:w/4]x%[fx:h/4]'', ''('', ''wm.png'', ''-resize'', ''%[WMSIZE]'', '')'',
            ''-geometry'', ''+25+25'', ''-composite'', ''wd/watermarker-a1.jpg'']),
          (''convert'',
           [''scans/a2.jpg'', ''-auto-orient'', ''-resize'', ''1500x1500'', ''-density'', ''150'',
            ''-strip'', ''wd/watermarker-a2.jpg'']),
          (''magick'',
           [''wd/watermarker-a2.jpg'', ''-colorspace'', ''sRGB'', ''-set'', ''option:WMSIZE'',
            ''%[fx:w/4]x%[fx:h/4]'', ''('', ''wm.png'', ''-resize'', ''%[WMSIZE]'', '')'',
            ''-geometry'', ''+25+25'', ''-composite'', ''wd/watermarker-a2.jpg'']),
          (''img2pdf'',
           [''--output'', ''out.pdf'', ''wd/watermarker-a1.jpg'', ''wd/watermarker-a2.jpg''])],
       tempFiles = [''wd/watermarker-a1.jpg'', ''wd/watermarker-a2.jpg'']\<rparr>) \<and>
   tempFiles (snd (main exampleConfig (exampleEnv [] []) (Root smallTree) emptyWorld)) = []"
  by code_simp

end
